theory Spec2Isabelle
  imports Main "HOL-Library.Word" "HOL-Library.Sublist"
begin

unbundle bit_operations_syntax

section \<open>Cru/DataFormat.h: the header decoder\<close>

type_synonym u8 = "8 word"
type_synonym u32 = "32 word"

text \<open>
  \<^verbatim>\<open>getWord(data, i)\<close> copies the four bytes at offset \<^verbatim>\<open>sizeof(word)*i\<close> into a
  \<^verbatim>\<open>uint32_t\<close>. On the little-endian host the driver runs on, the byte at the lowest
  address is the least significant one. The source does not check the length of
  \<^verbatim>\<open>data\<close>; a read past the end is undefined in C++ and is \<open>None\<close> here.
\<close>

definition getWord :: "u8 list \<Rightarrow> nat \<Rightarrow> u32 option" where
  "getWord data i =
     (if 4 * i + 4 \<le> length data
      then Some (ucast (data ! (4 * i))
                 OR push_bit 8 (ucast (data ! (4 * i + 1)))
                 OR push_bit 16 (ucast (data ! (4 * i + 2)))
                 OR push_bit 24 (ucast (data ! (4 * i + 3))))
      else None)"

text \<open>
  Modelled from the spec: \<^verbatim>\<open>Utilities::getBits\<close> (Utilities/Util.h) is not among the
  sources. The decoder's description, "bits 0-7 of word 3", "bits 16-31 of word 2",
  "bits 8-15 of word 3", makes it the extraction of the inclusive bit range
  \<open>lsb..msb\<close>, moved down to bit 0.
\<close>

definition getBits :: "u32 \<Rightarrow> nat \<Rightarrow> nat \<Rightarrow> u32" where
  "getBits x lsb msb = take_bit (msb - lsb + 1) (drop_bit lsb x)"

definition getLinkId :: "u8 list \<Rightarrow> u32 option" where
  "getLinkId data = map_option (\<lambda>w. getBits w 0 7) (getWord data 3)"

definition getEventSize :: "u8 list \<Rightarrow> u32 option" where
  "getEventSize data = map_option (\<lambda>w. getBits w 16 31) (getWord data 2)"

definition getPacketCounter :: "u8 list \<Rightarrow> u32 option" where
  "getPacketCounter data = map_option (\<lambda>w. getBits w 8 15) (getWord data 3)"

definition getHeaderSize :: nat where
  "getHeaderSize = 0x40"

text \<open>A 64-byte header whose word 3 is \<open>0x00001234\<close>, every other byte \<open>0xFF\<close>.\<close>

definition exampleHeader :: "u8 list" where
  "exampleHeader = replicate 12 0xFF @ [0x34, 0x12, 0x00, 0x00] @ replicate 48 0xFF"

section \<open>ProgramCruExperimentalDma.cxx: constants and data\<close>

definition MAX_RECORDED_ERRORS :: int where
  "MAX_RECORDED_ERRORS = 1000"

definition DMA_ALIGNMENT :: nat where
  "DMA_ALIGNMENT = 32"

definition DMA_PAGE_SIZE :: nat where
  "DMA_PAGE_SIZE = 8 * 1024"

definition DMA_PAGE_SIZE_32 :: nat where
  "DMA_PAGE_SIZE_32 = DMA_PAGE_SIZE div 4"

definition NUM_OF_BUFFERS :: nat where
  "NUM_OF_BUFFERS = 32"

definition FIFO_ENTRIES :: nat where
  "FIFO_ENTRIES = 4"

definition NUM_PAGES :: nat where
  "NUM_PAGES = FIFO_ENTRIES * NUM_OF_BUFFERS"

definition BUFFER_DEFAULT_VALUE :: u32 where
  "BUFFER_DEFAULT_VALUE = 0xCCCCCCCC"

text \<open>Times are readings of the high-resolution clock, in nanoseconds.\<close>

definition milliseconds :: "int \<Rightarrow> int" where
  "milliseconds n = n * 1000000"

definition DISPLAY_INTERVAL :: int where
  "DISPLAY_INTERVAL = milliseconds 10"

definition HANDLING_SIGINT_TIMEOUT :: int where
  "HANDLING_SIGINT_TIMEOUT = milliseconds 10"

definition PATTERN_STRIDE :: nat where
  "PATTERN_STRIDE = 8"

definition LOW_PRIORITY_INTERVAL :: nat where
  "LOW_PRIORITY_INTERVAL = 10000"

text \<open>
  The program names the pattern kinds \<^verbatim>\<open>GeneratorPattern::Incremental\<close>,
  \<^verbatim>\<open>Alternating\<close>, \<^verbatim>\<open>Constant\<close> and \<^verbatim>\<open>Unknown\<close>; the enum in ChannelParameters.h
  lists the further kinds a configuration can carry.
\<close>

datatype GeneratorPattern =
  Unknown | Constant | Alternating | Flying0 | Flying1 | Incremental | Decremental | Random

datatype error =
    FileOutputBothAsciiAndBinary
  | InsufficientPages
  | FifoNotAligned
  | PageIndexOutOfRange
  | UnrecognizedGeneratorPattern GeneratorPattern

text \<open>
  The program options after parsing, with \<^verbatim>\<open>Program::isVerbose()\<close> as the field
  \<open>verbose\<close>. Options that only act on the card before the run or on the shared-memory
  file after it (reset, show-fifo, rm-sharedmem, reload-kmod, reg-hammer, no-200) are
  left out.
\<close>

record Options =
  maxPages :: int
  fileOutputAscii :: bool
  fileOutputBin :: bool
  randomPauseSoft :: bool
  randomPauseFirm :: bool
  resyncCounter :: bool
  legacyAck :: bool
  cumulativeIdle :: bool
  logIdle :: bool
  generatorPattern :: GeneratorPattern
  checkError :: bool
  verbose :: bool

definition mInfinitePages :: "Options \<Rightarrow> bool" where
  "mInfinitePages opts = (maxPages opts \<le> 0)"

record Handle =
  descriptorIndex :: nat
  pageIndex :: nat

record PageAddress =
  user :: nat
  bus :: nat

record DescriptorEntry =
  ctrlLength :: nat
  srcAddress :: nat
  dstAddress :: nat

record ErrorLine =
  errEvent :: int
  errPage :: nat
  errIndex :: nat
  errExpected :: u32
  errActual :: u32

record Summary =
  sumPages :: int
  sumErrors :: "int option"
  sumIdle :: "int option"
  sumIdleLower :: u32
  sumIdleUpper :: u32
  sumIdleMax :: u32

datatype message =
    MaximumPagesReached
  | AbortingMaxTemperature
  | Interrupted
  | InterruptedNotFinished
  | SwPause int
  | FwPause int

text \<open>
  The effects of the run on the card, the files and the console, and the statements of
  the readout path whose order matters, are logged in the order the program performs
  them. \<open>EvReadoutPage\<close> marks the call of \<^verbatim>\<open>readoutPage\<close> with the front of the
  queue, \<open>EvCheckErrors\<close> the call of \<^verbatim>\<open>checkErrors\<close>, \<open>EvReadoutCounter\<close> the increment
  of \<^verbatim>\<open>mReadoutCounter\<close> with its new value, \<open>EvAcknowledge\<close> the write to the
  acknowledge register in \<^verbatim>\<open>sendAcknowledge\<close>.
\<close>

datatype event =
    EvPush Handle
  | EvReadoutPage Handle
  | EvPrintToFile int nat
  | EvCheckErrors nat
  | EvResetPage nat
  | EvStatusReset nat
  | EvReadoutCounter int
  | EvAcknowledge
  | EvIdleLog int nat
  | EvPop Handle
  | EvConsole message
  | EvStatusHeader
  | EvStatusDisplay
  | EvSleep int
  | EvDataEmulatorControl u32
  | EvDataEmulatorEnabled bool
  | EvOutputErrors "ErrorLine list"
  | EvOutputStats Summary

text \<open>
  The members of the program object that the run reads or writes, the descriptor and
  status table, the page memory, and the log. The \<^verbatim>\<open>int64_t\<close> counters are integers
  without a bound: they count pages, and no run reaches \<open>2 ^ 63\<close> of them.
\<close>

record state =
  mPageAddresses :: "PageAddress list"
  mFifoAddress :: PageAddress
  statusEntries :: "nat \<Rightarrow> bool"
  descriptorEntries :: "nat \<Rightarrow> DescriptorEntry"
  pageMem :: "nat \<Rightarrow> nat \<Rightarrow> u32"
  mQueue :: "Handle list"
  mPushCounter :: int
  mReadoutCounter :: int
  mDataGeneratorCounter :: int
  mDescriptorCounter :: nat
  mPageIndexCounter :: nat
  mErrorCount :: int
  mErrorStream :: "ErrorLine list"
  mLastDisplayUpdate :: int
  softNext :: int
  softLength :: int
  firmIsPaused :: bool
  firmNext :: int
  firmLength :: int
  mDmaLoopBreak :: bool
  mHandlingSigint :: bool
  mHandlingSigintStart :: int
  mPushEnabled :: bool
  mLowPriorityCounter :: nat
  mLastFillSize :: nat
  mIdleCountCumulative :: int
  mIdleCountLower32 :: u32
  mIdleCountUpper32 :: u32
  mIdleMaxValue :: u32
  mRunTimeStart :: int
  mRunTimeEnd :: int
  trace :: "event list"

text \<open>
  What the card and the outside world contribute to one pass of the main loop: the DMA
  transfers the card completes before the loop polls the status table (each writes a
  page and marks a status entry arrived), the interrupt and temperature flags, the clock
  readings, the random draws of the pause schedules and the idle counter register.
\<close>

record DmaTransfer =
  dmaDescriptor :: nat
  dmaPage :: nat
  dmaData :: "nat \<Rightarrow> u32"

record LoopInput =
  transfers :: "DmaTransfer list"
  isSigInt :: bool
  isMaxExceeded :: bool
  nowSigintStart :: int
  nowSigintCheck :: int
  nowDisplay :: int
  nowSoft :: int
  nowSoftNext :: int
  nowFirm :: int
  nowFirmNext :: int
  nowAck :: int
  randSoftNext :: int
  randSoftLength :: int
  randFirmNext :: int
  randFirmLength :: int
  idleCounter :: nat

record FinalInput =
  idleCounterLower :: u32
  idleCounterUpper :: u32
  idleMaxValue :: u32
  nowEnd :: int

definition emit :: "event \<Rightarrow> state \<Rightarrow> state" where
  "emit ev s = s\<lparr>trace := trace s @ [ev]\<rparr>"

section \<open>The page validator\<close>

text \<open>
  \<^verbatim>\<open>getPageAddress(handle)\<close> is the memory of page \<^verbatim>\<open>handle.pageIndex\<close>; pages are
  addressed here by their index in \<^verbatim>\<open>mPageAddresses\<close>.
\<close>

definition getPageAddress :: "state \<Rightarrow> Handle \<Rightarrow> nat \<Rightarrow> u32" where
  "getPageAddress s handle = pageMem s (pageIndex handle)"

text \<open>
  The loop of the \<^verbatim>\<open>check\<close> lambda: it visits every \<^verbatim>\<open>PATTERN_STRIDE\<close>-th word
  from \<open>i\<close> on and stops at the first word that differs from the pattern, returning
  its index, the expected and the actual value.
\<close>

function findMismatch :: "(nat \<Rightarrow> u32) \<Rightarrow> (nat \<Rightarrow> u32) \<Rightarrow> nat \<Rightarrow> (nat \<times> u32 \<times> u32) option" where
  "findMismatch patternFunction page i =
     (if i < DMA_PAGE_SIZE_32 then
        (let expectedValue = patternFunction i;
             actualValue = page i
         in if actualValue \<noteq> expectedValue then Some (i, expectedValue, actualValue)
            else findMismatch patternFunction page (i + PATTERN_STRIDE))
      else None)"
  by pat_completeness auto
termination
  by (relation "measure (\<lambda>(f, p, i). DMA_PAGE_SIZE_32 - i)") (auto simp: PATTERN_STRIDE_def)

declare findMismatch.simps [simp del]

definition check :: "Options \<Rightarrow> Handle \<Rightarrow> int \<Rightarrow> (nat \<Rightarrow> u32) \<Rightarrow> state \<Rightarrow> bool \<times> state" where
  "check opts handle eventNumber patternFunction s =
     (case findMismatch patternFunction (getPageAddress s handle) 0 of
        None \<Rightarrow> (False, s)
      | Some (i, expectedValue, actualValue) \<Rightarrow>
          (let s1 = s\<lparr>mErrorCount := mErrorCount s + 1\<rparr>;
               s2 = (if verbose opts \<and> mErrorCount s1 < MAX_RECORDED_ERRORS
                     then s1\<lparr>mErrorStream := mErrorStream s1 @
                            [\<lparr>errEvent = eventNumber, errPage = pageIndex handle, errIndex = i,
                              errExpected = expectedValue, errActual = actualValue\<rparr>]\<rparr>
                     else s1)
           in (True, s2)))"

definition checkErrors ::
  "Options \<Rightarrow> GeneratorPattern \<Rightarrow> Handle \<Rightarrow> int \<Rightarrow> u32 \<Rightarrow> state \<Rightarrow> error + bool \<times> state" where
  "checkErrors opts pattern handle eventNumber counter s =
     (case pattern of
        Incremental \<Rightarrow> Inr (check opts handle eventNumber (\<lambda>i. counter + word_of_nat (i div 8)) s)
      | Alternating \<Rightarrow> Inr (check opts handle eventNumber (\<lambda>i. 0xa5a5a5a5) s)
      | Constant \<Rightarrow> Inr (check opts handle eventNumber (\<lambda>i. 0x12345678) s)
      | _ \<Rightarrow> Inl (UnrecognizedGeneratorPattern pattern))"

section \<open>Reading out a page\<close>

definition resetPage :: "nat \<Rightarrow> state \<Rightarrow> state" where
  "resetPage p s =
     emit (EvResetPage p)
       (s\<lparr>pageMem := (pageMem s)
            (p := (\<lambda>i. if i < DMA_PAGE_SIZE_32 then BUFFER_DEFAULT_VALUE else pageMem s p i))\<rparr>)"

definition printToFile :: "Options \<Rightarrow> Handle \<Rightarrow> int \<Rightarrow> state \<Rightarrow> state" where
  "printToFile opts handle pageNumber s =
     (if fileOutputAscii opts then emit (EvPrintToFile pageNumber (pageIndex handle)) s
      else if fileOutputBin opts then emit (EvPrintToFile pageNumber (pageIndex handle)) s
      else s)"

text \<open>
  The data error checking block of \<^verbatim>\<open>readoutPage\<close>. The counter is an \<^verbatim>\<open>int64_t\<close>
  that is passed to \<^verbatim>\<open>checkErrors\<close> as a \<^verbatim>\<open>uint32_t\<close>, and is seeded from the first
  word of the page, a \<^verbatim>\<open>uint32_t\<close>.
\<close>

definition dataErrorChecking :: "Options \<Rightarrow> Handle \<Rightarrow> state \<Rightarrow> error + state" where
  "dataErrorChecking opts handle s =
     (let s1 = (if mDataGeneratorCounter s = - 1
                then s\<lparr>mDataGeneratorCounter := uint (getPageAddress s handle 0)\<rparr> else s)
      in case checkErrors opts (generatorPattern opts) handle (mReadoutCounter s1)
                (word_of_int (mDataGeneratorCounter s1)) (emit (EvCheckErrors (pageIndex handle)) s1) of
           Inl e \<Rightarrow> Inl e
         | Inr (hasError, s2) \<Rightarrow>
             Inr (if hasError \<and> resyncCounter opts
                  then s2\<lparr>mDataGeneratorCounter := uint (getPageAddress s2 handle 0)\<rparr> else s2))"

definition statusReset :: "nat \<Rightarrow> state \<Rightarrow> state" where
  "statusReset d s = emit (EvStatusReset d) (s\<lparr>statusEntries := (statusEntries s)(d := False)\<rparr>)"

definition countReadout :: "state \<Rightarrow> state" where
  "countReadout s =
     (let s1 = s\<lparr>mDataGeneratorCounter := mDataGeneratorCounter s + 256\<rparr>
      in emit (EvReadoutCounter (mReadoutCounter s1 + 1)) (s1\<lparr>mReadoutCounter := mReadoutCounter s1 + 1\<rparr>))"

definition readoutPage :: "Options \<Rightarrow> Handle \<Rightarrow> state \<Rightarrow> error + state" where
  "readoutPage opts handle s =
     (let s0 = emit (EvReadoutPage handle) s;
          s1 = (if fileOutputAscii opts \<or> fileOutputBin opts
                then printToFile opts handle (mReadoutCounter s0) s0 else s0)
      in case (if checkError opts then dataErrorChecking opts handle s1 else Inr s1) of
           Inl e \<Rightarrow> Inl e
         | Inr s2 \<Rightarrow>
             Inr (countReadout (statusReset (descriptorIndex handle) (resetPage (pageIndex handle) s2))))"

definition acknowledgePage :: "Options \<Rightarrow> LoopInput \<Rightarrow> state \<Rightarrow> state" where
  "acknowledgePage opts inp s =
     (let s1 = emit EvAcknowledge s
      in if cumulativeIdle opts \<or> logIdle opts then
           (let idle = idleCounter inp;
                s2 = (if cumulativeIdle opts
                      then s1\<lparr>mIdleCountCumulative := mIdleCountCumulative s1 + int idle\<rparr> else s1)
            in if logIdle opts then emit (EvIdleLog (nowAck inp - mRunTimeStart s2) idle) s2 else s2)
         else s1)"

section \<open>The readout queue and the flow control\<close>

text \<open>
  The queue is a \<^verbatim>\<open>std::queue\<close> over a \<^verbatim>\<open>boost::circular_buffer\<close> of capacity
  \<open>NUM_PAGES\<close>: \<^verbatim>\<open>push\<close> is \<^verbatim>\<open>push_back\<close>, which on a full buffer overwrites the
  oldest element. \<^verbatim>\<open>front\<close> and \<^verbatim>\<open>pop\<close> of an empty queue are undefined; the program
  reaches them only behind \<^verbatim>\<open>!mQueue.empty()\<close>.
\<close>

definition queuePush :: "Handle \<Rightarrow> Handle list \<Rightarrow> Handle list" where
  "queuePush h q = (if length q < NUM_PAGES then q @ [h] else tl q @ [h])"

definition isPageArrived :: "state \<Rightarrow> Handle \<Rightarrow> bool" where
  "isPageArrived s handle = statusEntries s (descriptorIndex handle)"

definition readoutQueueHasPageAvailable :: "state \<Rightarrow> bool" where
  "readoutQueueHasPageAvailable s = (mQueue s \<noteq> [] \<and> isPageArrived s (hd (mQueue s)))"

definition shouldPushQueue :: "Options \<Rightarrow> state \<Rightarrow> bool" where
  "shouldPushQueue opts s =
     (length (mQueue s) < NUM_PAGES \<and> (mInfinitePages opts \<or> mPushCounter s < maxPages opts)
      \<and> mPushEnabled s)"

text \<open>\<^verbatim>\<open>mPageAddresses.at(pageIndex)\<close> throws when the index is out of range.\<close>

definition setDescriptor :: "nat \<Rightarrow> nat \<Rightarrow> state \<Rightarrow> error + state" where
  "setDescriptor pageIdx descriptorIdx s =
     (if pageIdx < length (mPageAddresses s) then
        Inr (s\<lparr>descriptorEntries := (descriptorEntries s)
               (descriptorIdx :=
                  \<lparr>ctrlLength = DMA_PAGE_SIZE_32,
                   srcAddress = (descriptorIdx mod NUM_OF_BUFFERS) * DMA_PAGE_SIZE,
                   dstAddress = bus (mPageAddresses s ! pageIdx)\<rparr>)\<rparr>)
      else Inl PageIndexOutOfRange)"

definition pushPage :: "state \<Rightarrow> error + state" where
  "pushPage s =
     (case setDescriptor (mPageIndexCounter s) (mDescriptorCounter s) s of
        Inl e \<Rightarrow> Inl e
      | Inr s1 \<Rightarrow>
          (let h = \<lparr>descriptorIndex = mDescriptorCounter s1, pageIndex = mPageIndexCounter s1\<rparr>;
               s2 = emit (EvPush h) (s1\<lparr>mQueue := queuePush h (mQueue s1)\<rparr>)
           in Inr (s2\<lparr>mDescriptorCounter := (mDescriptorCounter s2 + 1) mod NUM_PAGES,
                      mPageIndexCounter := (mPageIndexCounter s2 + 1) mod length (mPageAddresses s2),
                      mPushCounter := mPushCounter s2 + 1\<rparr>)))"

function fillLoop :: "Options \<Rightarrow> nat \<Rightarrow> state \<Rightarrow> error + nat \<times> state" where
  "fillLoop opts pushed s =
     (if shouldPushQueue opts s then
        (case pushPage s of
           Inl e \<Rightarrow> Inl e
         | Inr s' \<Rightarrow> fillLoop opts (pushed + 1) s')
      else Inr (pushed, s))"
  by pat_completeness auto
termination
  by (relation "measure (\<lambda>(opts, pushed, s). NUM_PAGES - length (mQueue s))")
     (auto simp: shouldPushQueue_def pushPage_def setDescriptor_def queuePush_def emit_def Let_def
           split: if_splits)

declare fillLoop.simps [simp del]

definition fillReadoutQueue :: "Options \<Rightarrow> state \<Rightarrow> error + state" where
  "fillReadoutQueue opts s =
     (case fillLoop opts 0 s of
        Inl e \<Rightarrow> Inl e
      | Inr (pushed, s') \<Rightarrow> Inr (if pushed \<noteq> 0 then s'\<lparr>mLastFillSize := pushed\<rparr> else s'))"

section \<open>The low priority tasks\<close>

text \<open>\<^verbatim>\<open>duration_cast\<close> to whole milliseconds truncates towards zero.\<close>

definition toMilliseconds :: "int \<Rightarrow> int" where
  "toMilliseconds d = (if 0 \<le> d then d div 1000000 else - ((- d) div 1000000))"

definition isStatusDisplayInterval :: "LoopInput \<Rightarrow> state \<Rightarrow> bool \<times> state" where
  "isStatusDisplayInterval inp s =
     (let now = nowDisplay inp
      in if milliseconds (toMilliseconds (now - mLastDisplayUpdate s)) > DISPLAY_INTERVAL
         then (True, s\<lparr>mLastDisplayUpdate := now\<rparr>)
         else (False, s))"

definition statusDisplayTask :: "Options \<Rightarrow> LoopInput \<Rightarrow> state \<Rightarrow> state" where
  "statusDisplayTask opts inp s =
     (if verbose opts then
        (case isStatusDisplayInterval inp s of
           (True, s1) \<Rightarrow> emit EvStatusDisplay s1
         | (False, s1) \<Rightarrow> s1)
      else s)"

text \<open>
  \<^verbatim>\<open>Utilities::getRandRange\<close> is not among the sources; the values it returns are taken
  from the input.
\<close>

definition randomPauseSoftTask :: "Options \<Rightarrow> LoopInput \<Rightarrow> state \<Rightarrow> state" where
  "randomPauseSoftTask opts inp s =
     (if randomPauseSoft opts then
        (if nowSoft inp \<ge> softNext s then
           (let s1 = emit (EvConsole (SwPause (softLength s))) s;
                s2 = emit (EvSleep (softLength s1)) s1
            in s2\<lparr>softNext := nowSoftNext inp + milliseconds (randSoftNext inp),
                  softLength := randSoftLength inp\<rparr>)
         else s)
      else s)"

definition randomPauseFirmTask :: "Options \<Rightarrow> LoopInput \<Rightarrow> state \<Rightarrow> state" where
  "randomPauseFirmTask opts inp s =
     (if randomPauseFirm opts then
        (let now = nowFirm inp;
             s1 = (if \<not> firmIsPaused s \<and> now \<ge> firmNext s
                   then (emit (EvDataEmulatorControl 0x1) (emit (EvConsole (FwPause (firmLength s))) s))
                          \<lparr>firmIsPaused := True\<rparr>
                   else s)
         in if firmIsPaused s1 \<and> now \<ge> firmNext s1 + milliseconds (firmLength s1)
            then (emit (EvDataEmulatorControl 0x3) s1)
                   \<lparr>firmIsPaused := False,
                    firmNext := nowFirmNext inp + milliseconds (randFirmNext inp),
                    firmLength := randFirmLength inp\<rparr>
            else s1)
      else s)"

definition lowPriorityTasks :: "Options \<Rightarrow> LoopInput \<Rightarrow> state \<Rightarrow> state" where
  "lowPriorityTasks opts inp s =
     (if mLowPriorityCounter s < LOW_PRIORITY_INTERVAL
      then s\<lparr>mLowPriorityCounter := mLowPriorityCounter s + 1\<rparr>
      else
        (let s0 = s\<lparr>mLowPriorityCounter := 0\<rparr>
         in if isMaxExceeded inp
            then (emit (EvConsole AbortingMaxTemperature) s0)\<lparr>mDmaLoopBreak := True\<rparr>
            else
              (let rest = (\<lambda>t. randomPauseFirmTask opts inp
                                  (randomPauseSoftTask opts inp (statusDisplayTask opts inp t)))
               in if isSigInt inp then
                    (let s1 = (if \<not> mHandlingSigint s0
                               then s0\<lparr>mHandlingSigintStart := nowSigintStart inp,
                                       mHandlingSigint := True,
                                       mPushEnabled := False\<rparr>
                               else s0)
                     in if length (mQueue s1) = 0
                        then (emit (EvConsole Interrupted) s1)\<lparr>mDmaLoopBreak := True\<rparr>
                        else if nowSigintCheck inp - mHandlingSigintStart s1 > HANDLING_SIGINT_TIMEOUT
                        then (emit (EvConsole InterruptedNotFinished) s1)\<lparr>mDmaLoopBreak := True\<rparr>
                        else rest s1)
                  else rest s0)))"

section \<open>The main loop\<close>

definition applyTransfer :: "state \<Rightarrow> DmaTransfer \<Rightarrow> state" where
  "applyTransfer s t =
     s\<lparr>statusEntries := (statusEntries s)(dmaDescriptor t := True),
       pageMem := (pageMem s)(dmaPage t := dmaData t)\<rparr>"

definition dmaArrive :: "LoopInput \<Rightarrow> state \<Rightarrow> state" where
  "dmaArrive inp s = foldl applyTransfer s (transfers inp)"

definition queuePop :: "state \<Rightarrow> state" where
  "queuePop s = emit (EvPop (hd (mQueue s))) (s\<lparr>mQueue := tl (mQueue s)\<rparr>)"

text \<open>The statements behind \<^verbatim>\<open>if (readoutQueueHasPageAvailable())\<close>.\<close>

definition readoutStep :: "Options \<Rightarrow> LoopInput \<Rightarrow> state \<Rightarrow> error + state" where
  "readoutStep opts inp s =
     (case readoutPage opts (hd (mQueue s)) s of
        Inl e \<Rightarrow> Inl e
      | Inr s1 \<Rightarrow>
          (let s2 = (if legacyAck opts
                     then (if mReadoutCounter s1 mod 4 = 0 then acknowledgePage opts inp s1 else s1)
                     else acknowledgePage opts inp s1)
           in Inr (queuePop s2)))"

datatype stop = PageLimit | LoopBreak

definition loopHead :: "Options \<Rightarrow> state \<Rightarrow> stop option" where
  "loopHead opts s =
     (if \<not> mInfinitePages opts \<and> mReadoutCounter s \<ge> maxPages opts then Some PageLimit
      else if mDmaLoopBreak s then Some LoopBreak
      else None)"

definition loopBody :: "Options \<Rightarrow> LoopInput \<Rightarrow> state \<Rightarrow> error + state" where
  "loopBody opts inp s =
     (case fillReadoutQueue opts (lowPriorityTasks opts inp s) of
        Inl e \<Rightarrow> Inl e
      | Inr s1 \<Rightarrow>
          (let s2 = dmaArrive inp s1
           in if readoutQueueHasPageAvailable s2 then readoutStep opts inp s2 else Inr s2))"

text \<open>
  How far a run has come: stopped at the head of the loop, ended by an exception, or
  still running when the inputs given to it are used up.
\<close>

datatype outcome = Stopped stop state | Raised error | Running state

definition leaveLoop :: "stop \<Rightarrow> state \<Rightarrow> state" where
  "leaveLoop r s = (case r of PageLimit \<Rightarrow> emit (EvConsole MaximumPagesReached) s | LoopBreak \<Rightarrow> s)"

text \<open>The \<^verbatim>\<open>while (true)\<close> loop, one input per pass.\<close>

fun runLoop :: "Options \<Rightarrow> LoopInput list \<Rightarrow> state \<Rightarrow> outcome" where
  "runLoop opts [] s =
     (case loopHead opts s of
        Some r \<Rightarrow> Stopped r (leaveLoop r s)
      | None \<Rightarrow> Running s)"
| "runLoop opts (inp # inps) s =
     (case loopHead opts s of
        Some r \<Rightarrow> Stopped r (leaveLoop r s)
      | None \<Rightarrow>
          (case loopBody opts inp s of
             Inl e \<Rightarrow> Raised e
           | Inr s' \<Rightarrow> runLoop opts inps s'))"

text \<open>
  The run summary of \<^verbatim>\<open>outputStats\<close>. The elapsed time and the throughput figures are
  floating point values derived from the clock and from \<^verbatim>\<open>mReadoutCounter\<close>; the
  summary keeps the counters they are computed from. The byte count and the error count
  are printed when \<^verbatim>\<open>bytes > 0.00001\<close>, that is when at least one page was read.
\<close>

definition outputStats :: "Options \<Rightarrow> state \<Rightarrow> state" where
  "outputStats opts s =
     emit (EvOutputStats
       \<lparr>sumPages = mReadoutCounter s,
        sumErrors = (if mReadoutCounter s > 0 then Some (mErrorCount s) else None),
        sumIdle = (if cumulativeIdle opts then Some (mIdleCountCumulative s) else None),
        sumIdleLower = mIdleCountLower32 s,
        sumIdleUpper = mIdleCountUpper32 s,
        sumIdleMax = mIdleMaxValue s\<rparr>) s"

definition outputErrors :: "state \<Rightarrow> state" where
  "outputErrors s = emit (EvOutputErrors (mErrorStream s)) s"

definition finishUp :: "Options \<Rightarrow> FinalInput \<Rightarrow> state \<Rightarrow> state" where
  "finishUp opts fin s =
     (let s1 = s\<lparr>mIdleCountLower32 := idleCounterLower fin,
                 mIdleCountUpper32 := idleCounterUpper fin,
                 mIdleMaxValue := idleMaxValue fin,
                 mRunTimeEnd := nowEnd fin\<rparr>
      in emit (EvDataEmulatorEnabled False) (outputStats opts (outputErrors s1)))"

definition getStarted :: "Options \<Rightarrow> int \<Rightarrow> state \<Rightarrow> state" where
  "getStarted opts start s =
     (let s1 = (if verbose opts then emit EvStatusHeader s else s)
      in s1\<lparr>mRunTimeStart := start\<rparr>)"

definition runDma :: "Options \<Rightarrow> int \<Rightarrow> LoopInput list \<Rightarrow> FinalInput \<Rightarrow> state \<Rightarrow> outcome" where
  "runDma opts start inps fin s =
     (case fillReadoutQueue opts (getStarted opts start s) of
        Inl e \<Rightarrow> Raised e
      | Inr s1 \<Rightarrow>
          (case runLoop opts inps (emit (EvDataEmulatorEnabled True) s1) of
             Stopped r s2 \<Rightarrow> Stopped r (finishUp opts fin s2)
           | Raised e \<Rightarrow> Raised e
           | Running s2 \<Rightarrow> Running s2))"

section \<open>Initialisation\<close>

text \<open>The default member initialisers of the program object; other members are as found.\<close>

definition programStart :: "state \<Rightarrow> state" where
  "programStart u =
     u\<lparr>mQueue := [], mPushCounter := 0, mReadoutCounter := 0, mDataGeneratorCounter := - 1,
       mDescriptorCounter := 0, mPageIndexCounter := 0, mErrorCount := 0, mErrorStream := [],
       firmIsPaused := False, mDmaLoopBreak := False, mHandlingSigint := False,
       mPushEnabled := True, mLowPriorityCounter := 0, mLastFillSize := 0,
       mIdleCountCumulative := 0, mIdleCountLower32 := 0, mIdleCountUpper32 := 0,
       mIdleMaxValue := 0, trace := []\<rparr>"

fun setDescriptors :: "nat list \<Rightarrow> state \<Rightarrow> error + state" where
  "setDescriptors [] s = Inr s"
| "setDescriptors (i # is) s =
     (case setDescriptor i i s of
        Inl e \<Rightarrow> Inl e
      | Inr s' \<Rightarrow> setDescriptors is s')"

text \<open>
  Modelled from the spec: \<^verbatim>\<open>CruFifoTable\<close> is not among the sources. The table has
  one status entry and one descriptor entry per ring slot, \<open>NUM_PAGES\<close> of each, and
  \<^verbatim>\<open>resetStatusEntries\<close> marks the whole ring "not arrived".
  \<^verbatim>\<open>Pda::partitionScatterGatherList\<close> is not among the sources either: the FIFO address
  and the page addresses it returns are parameters.
\<close>

definition initFifo :: "PageAddress \<Rightarrow> PageAddress list \<Rightarrow> state \<Rightarrow> error + state" where
  "initFifo fifoAddress pageAddresses s =
     (let s1 = s\<lparr>mPageAddresses := pageAddresses, mFifoAddress := fifoAddress\<rparr>
      in if length (mPageAddresses s1) \<le> NUM_PAGES then Inl InsufficientPages
         else setDescriptors [0..<NUM_PAGES] (s1\<lparr>statusEntries := (\<lambda>i. False)\<rparr>))"

fun resetBuffer :: "nat list \<Rightarrow> state \<Rightarrow> state" where
  "resetBuffer [] s = s"
| "resetBuffer (p # ps) s = resetBuffer ps (resetPage p s)"

definition checkAlignment :: "nat \<Rightarrow> nat \<Rightarrow> bool" where
  "checkAlignment address alignment = (address mod alignment = 0)"

text \<open>
  \<^verbatim>\<open>initCard\<close> checks the alignment of the FIFO bus address; its register writes go to
  the card and leave the program object as it is.
\<close>

definition initCard :: "state \<Rightarrow> error + state" where
  "initCard s = (if \<not> checkAlignment (bus (mFifoAddress s)) DMA_ALIGNMENT then Inl FifoNotAligned else Inr s)"

definition initDma :: "PageAddress \<Rightarrow> PageAddress list \<Rightarrow> state \<Rightarrow> error + state" where
  "initDma fifoAddress pageAddresses s =
     (case initFifo fifoAddress pageAddresses s of
        Inl e \<Rightarrow> Inl e
      | Inr s1 \<Rightarrow> initCard (resetBuffer [0..<length (mPageAddresses s1)] s1))"

definition run ::
  "Options \<Rightarrow> PageAddress \<Rightarrow> PageAddress list \<Rightarrow> int \<Rightarrow> LoopInput list \<Rightarrow> FinalInput \<Rightarrow> state
     \<Rightarrow> outcome" where
  "run opts fifoAddress pageAddresses start inps fin u =
     (if fileOutputAscii opts \<and> fileOutputBin opts then Raised FileOutputBothAsciiAndBinary
      else
        (case initDma fifoAddress pageAddresses (programStart u) of
           Inl e \<Rightarrow> Raised e
         | Inr s \<Rightarrow> runDma opts start inps fin s))"

section \<open>Reading the log\<close>

fun pushedOf :: "event \<Rightarrow> Handle list" where
  "pushedOf (EvPush h) = [h]"
| "pushedOf _ = []"

fun poppedOf :: "event \<Rightarrow> Handle list" where
  "poppedOf (EvPop h) = [h]"
| "poppedOf _ = []"

text \<open>The handles pushed into the queue, and those popped from it, in order.\<close>

definition pushed :: "event list \<Rightarrow> Handle list" where
  "pushed tr = concat (map pushedOf tr)"

definition popped :: "event list \<Rightarrow> Handle list" where
  "popped tr = concat (map poppedOf tr)"

text \<open>
  An acknowledgment tells the card that the pages read out since the previous
  acknowledgment are consumed: one page in the default mode, a batch in the legacy mode.
  The pair is the pages acknowledged so far and the pages read out but not yet
  acknowledged.
\<close>

fun ackStep :: "Handle list \<times> Handle list \<Rightarrow> event \<Rightarrow> Handle list \<times> Handle list" where
  "ackStep (done, waiting) (EvReadoutPage h) = (done, waiting @ [h])"
| "ackStep (done, waiting) EvAcknowledge = (done @ waiting, [])"
| "ackStep (done, waiting) _ = (done, waiting)"

definition acknowledged :: "event list \<Rightarrow> Handle list" where
  "acknowledged tr = fst (foldl ackStep ([], []) tr)"

definition awaitingAck :: "event list \<Rightarrow> Handle list" where
  "awaitingAck tr = snd (foldl ackStep ([], []) tr)"

definition numAcks :: "event list \<Rightarrow> nat" where
  "numAcks tr = length (filter (\<lambda>ev. ev = EvAcknowledge) tr)"

fun summaryOf :: "event \<Rightarrow> Summary list" where
  "summaryOf (EvOutputStats x) = [x]"
| "summaryOf _ = []"

definition summaries :: "event list \<Rightarrow> Summary list" where
  "summaries tr = concat (map summaryOf tr)"

section \<open>The states of a run\<close>

text \<open>
  The states the program object passes through during \<^verbatim>\<open>runDma\<close>, from the state
  \<^verbatim>\<open>initDma\<close> leaves: pushes happen only under \<^verbatim>\<open>shouldPushQueue\<close>, a page is read
  out only when \<^verbatim>\<open>readoutQueueHasPageAvailable\<close>; the low priority tasks and the card's
  transfers come in between in any order, with any input.
\<close>

inductive reachable :: "Options \<Rightarrow> state \<Rightarrow> bool" for opts :: Options where
  r_start: "initDma fifoAddress pageAddresses (programStart u) = Inr s
              \<Longrightarrow> reachable opts (getStarted opts start s)"
| r_push: "reachable opts s \<Longrightarrow> shouldPushQueue opts s \<Longrightarrow> pushPage s = Inr s'
              \<Longrightarrow> reachable opts s'"
| r_filled: "reachable opts s \<Longrightarrow> reachable opts (s\<lparr>mLastFillSize := n\<rparr>)"
| r_ready: "reachable opts s \<Longrightarrow> reachable opts (emit (EvDataEmulatorEnabled True) s)"
| r_low: "reachable opts s \<Longrightarrow> reachable opts (lowPriorityTasks opts inp s)"
| r_dma: "reachable opts s \<Longrightarrow> reachable opts (dmaArrive inp s)"
| r_readout: "reachable opts s \<Longrightarrow> readoutQueueHasPageAvailable s \<Longrightarrow> readoutStep opts inp s = Inr s'
              \<Longrightarrow> reachable opts s'"

text \<open>The parts of the state that the flow control reads, and what the log says.\<close>

definition ctl ::
  "state \<Rightarrow> (Handle list \<times> int \<times> int \<times> bool \<times> bool \<times> bool) \<times> (nat \<Rightarrow> bool) \<times> PageAddress list \<times> nat \<times> nat" where
  "ctl s =
     ((mQueue s, mPushCounter s, mReadoutCounter s, mPushEnabled s, mDmaLoopBreak s, mHandlingSigint s),
      statusEntries s, mPageAddresses s, mPageIndexCounter s, mDescriptorCounter s)"

definition logged ::
  "state \<Rightarrow> Handle list \<times> Handle list \<times> (Handle list \<times> Handle list) \<times> nat \<times> Summary list" where
  "logged s =
     (pushed (trace s), popped (trace s), foldl ackStep ([], []) (trace s), numAcks (trace s),
      summaries (trace s))"

definition recognized :: "Options \<Rightarrow> bool" where
  "recognized opts = (generatorPattern opts = Incremental \<or> generatorPattern opts = Alternating
                       \<or> generatorPattern opts = Constant)"

text \<open>The events that the parts of one readout step log.\<close>

definition fileEvents :: "Options \<Rightarrow> Handle \<Rightarrow> state \<Rightarrow> event list" where
  "fileEvents opts h s =
     (if fileOutputAscii opts \<or> fileOutputBin opts
      then [EvPrintToFile (mReadoutCounter s) (pageIndex h)] else [])"

definition checkEvents :: "Options \<Rightarrow> Handle \<Rightarrow> event list" where
  "checkEvents opts h = (if checkError opts then [EvCheckErrors (pageIndex h)] else [])"

definition ackEvents :: "Options \<Rightarrow> LoopInput \<Rightarrow> state \<Rightarrow> event list" where
  "ackEvents opts inp s =
     EvAcknowledge #
       (if logIdle opts then [EvIdleLog (nowAck inp - mRunTimeStart s) (idleCounter inp)] else [])"

definition stepAckEvents :: "Options \<Rightarrow> LoopInput \<Rightarrow> state \<Rightarrow> event list" where
  "stepAckEvents opts inp s =
     (if legacyAck opts \<and> (mReadoutCounter s + 1) mod 4 \<noteq> 0 then [] else ackEvents opts inp s)"

text \<open>
  The bookkeeping that ties the queue to the log: the queue holds at most \<open>NUM_PAGES\<close>
  handles; the pushed handles are, in order, the acknowledged ones, the ones read out and
  awaiting an acknowledgment, and the queued ones; the counters count the pushes and the
  pops; and the acknowledgments follow the readout counter.
\<close>

definition queueInv :: "Options \<Rightarrow> state \<Rightarrow> bool" where
  "queueInv opts s =
     (length (mQueue s) \<le> NUM_PAGES
      \<and> pushed (trace s) = acknowledged (trace s) @ awaitingAck (trace s) @ mQueue s
      \<and> popped (trace s) = acknowledged (trace s) @ awaitingAck (trace s)
      \<and> mReadoutCounter s = int (length (popped (trace s)))
      \<and> mPushCounter s = int (length (pushed (trace s)))
      \<and> numAcks (trace s) = (if legacyAck opts then length (popped (trace s)) div 4
                               else length (popped (trace s)))
      \<and> length (awaitingAck (trace s)) = (if legacyAck opts then length (popped (trace s)) mod 4 else 0)
      \<and> mPageIndexCounter s < length (mPageAddresses s)
      \<and> summaries (trace s) = [])"

text \<open>What filling the queue leaves alone.\<close>

definition kept :: "state \<Rightarrow> bool \<times> bool \<times> bool \<times> nat \<times> PageAddress list \<times> (nat \<Rightarrow> bool) \<times> int" where
  "kept s = (mPushEnabled s, mDmaLoopBreak s, mHandlingSigint s, mLowPriorityCounter s,
             mPageAddresses s, statusEntries s, mReadoutCounter s)"

text \<open>
  A run with a page limit of 5 pushes descriptor \<open>j\<close> with page \<open>j\<close>, for \<open>j\<close> from 0
  to 4, in the first fill. While it waits for them the queue holds the handles from the
  readout counter on, nothing is pushed any more, no flag is raised, and a page the card
  has delivered in an earlier pass and that is still queued has its status entry set.
\<close>

definition handleAt :: "nat \<Rightarrow> Handle" where
  "handleAt j = \<lparr>descriptorIndex = j, pageIndex = j\<rparr>"

definition arrivals :: "LoopInput \<Rightarrow> nat set" where
  "arrivals inp = dmaDescriptor ` set (transfers inp)"

definition drainInv :: "Options \<Rightarrow> (nat \<Rightarrow> LoopInput) \<Rightarrow> nat \<Rightarrow> state \<Rightarrow> bool" where
  "drainInv opts env m s =
     (reachable opts s \<and> mPushCounter s = 5 \<and> 0 \<le> mReadoutCounter s \<and> mReadoutCounter s \<le> 5
      \<and> mQueue s = map handleAt [nat (mReadoutCounter s)..<5]
      \<and> pushed (trace s) = map handleAt [0..<5]
      \<and> mPushEnabled s \<and> \<not> mDmaLoopBreak s \<and> \<not> mHandlingSigint s
      \<and> (\<forall>d. nat (mReadoutCounter s) \<le> d \<longrightarrow> d < 5 \<longrightarrow> (\<exists>k<m. d \<in> arrivals (env k))
             \<longrightarrow> statusEntries s d))"

section \<open>Example inputs\<close>

definition exampleOptions :: Options where
  "exampleOptions =
     \<lparr>maxPages = 5, fileOutputAscii = False, fileOutputBin = False, randomPauseSoft = False,
      randomPauseFirm = False, resyncCounter = False, legacyAck = False, cumulativeIdle = False,
      logIdle = False, generatorPattern = Incremental, checkError = True, verbose = True\<rparr>"

definition blankState :: state where
  "blankState =
     \<lparr>mPageAddresses = [], mFifoAddress = \<lparr>user = 0, bus = 0\<rparr>, statusEntries = (\<lambda>i. False),
      descriptorEntries = (\<lambda>i. \<lparr>ctrlLength = 0, srcAddress = 0, dstAddress = 0\<rparr>),
      pageMem = (\<lambda>p i. 0), mQueue = [], mPushCounter = 0, mReadoutCounter = 0,
      mDataGeneratorCounter = 0, mDescriptorCounter = 0, mPageIndexCounter = 0, mErrorCount = 0,
      mErrorStream = [], mLastDisplayUpdate = 0, softNext = 0, softLength = 0,
      firmIsPaused = False, firmNext = 0, firmLength = 0, mDmaLoopBreak = False,
      mHandlingSigint = False, mHandlingSigintStart = 0, mPushEnabled = False,
      mLowPriorityCounter = 0, mLastFillSize = 0, mIdleCountCumulative = 0,
      mIdleCountLower32 = 0, mIdleCountUpper32 = 0, mIdleMaxValue = 0, mRunTimeStart = 0,
      mRunTimeEnd = 0, trace = []\<rparr>"

definition examplePages :: "nat \<Rightarrow> PageAddress list" where
  "examplePages n = map (\<lambda>i. \<lparr>user = 0x10000 + i * 8192, bus = 0x20000 + i * 8192\<rparr>) [0..<n]"

definition exampleFifo :: PageAddress where
  "exampleFifo = \<lparr>user = 0xE000, bus = 0x1E000\<rparr>"

text \<open>A page of the incremental pattern from counter 100.\<close>

definition goodPage :: "nat \<Rightarrow> u32" where
  "goodPage i = 100 + word_of_nat (i div 8)"

definition exampleHandle :: Handle where
  "exampleHandle = \<lparr>descriptorIndex = 0, pageIndex = 0\<rparr>"


definition goodState :: state where
  "goodState = blankState\<lparr>pageMem := (\<lambda>p. goodPage)\<rparr>"


definition descriptorFor :: "state \<Rightarrow> nat \<Rightarrow> DescriptorEntry" where
  "descriptorFor s i =
     \<lparr>ctrlLength = DMA_PAGE_SIZE_32, srcAddress = (i mod NUM_OF_BUFFERS) * DMA_PAGE_SIZE,
      dstAddress = bus (mPageAddresses s ! i)\<rparr>"

text \<open>
  A run on 129 pages: the state after initialisation, at the start of \<^verbatim>\<open>runDma\<close>,
  after the first push, and after the card has delivered that page.
\<close>

definition exampleInit :: state where
  "exampleInit = projr (initDma exampleFifo (examplePages 129) (programStart blankState))"

definition exampleStart :: "Options \<Rightarrow> state" where
  "exampleStart opts = getStarted opts 0 exampleInit"

definition examplePushed :: "Options \<Rightarrow> state" where
  "examplePushed opts = projr (pushPage (exampleStart opts))"

definition exampleTransfer :: "nat \<Rightarrow> DmaTransfer" where
  "exampleTransfer d = \<lparr>dmaDescriptor = d, dmaPage = d, dmaData = goodPage\<rparr>"

definition exampleInput :: "nat \<Rightarrow> LoopInput" where
  "exampleInput d =
     \<lparr>transfers = [exampleTransfer d], isSigInt = False, isMaxExceeded = False, nowSigintStart = 0,
      nowSigintCheck = 0, nowDisplay = 0, nowSoft = 0, nowSoftNext = 0, nowFirm = 0, nowFirmNext = 0,
      nowAck = 0, randSoftNext = 0, randSoftLength = 0, randFirmNext = 0, randFirmLength = 0,
      idleCounter = 0\<rparr>"

definition exampleArrived :: "Options \<Rightarrow> state" where
  "exampleArrived opts = dmaArrive (exampleInput 0) (examplePushed opts)"

definition hotInput :: LoopInput where
  "hotInput = (exampleInput 0)\<lparr>isMaxExceeded := True\<rparr>"

definition exampleFinal :: FinalInput where
  "exampleFinal = \<lparr>idleCounterLower = 0, idleCounterUpper = 0, idleMaxValue = 0, nowEnd = 0\<rparr>"

definition legacyOptions :: Options where
  "legacyOptions = exampleOptions\<lparr>legacyAck := True\<rparr>"

text \<open>A state with one handle queued whose page has arrived.\<close>

definition pendingState :: state where
  "pendingState = blankState\<lparr>mQueue := [exampleHandle], statusEntries := (\<lambda>d. d = 0), mPushCounter := 1\<rparr>"

text \<open>The example run at the head of the loop, before the first pass.\<close>

definition exampleRunning :: state where
  "exampleRunning =
     (case runDma exampleOptions 0 [] exampleFinal exampleInit of Running s \<Rightarrow> s | _ \<Rightarrow> blankState)"

text \<open>A card that delivers page \<open>k\<close> in pass \<open>k\<close>, and nothing else happens.\<close>

definition exampleEnv :: "nat \<Rightarrow> LoopInput" where
  "exampleEnv k = exampleInput k"

text \<open>
  The example run with a pattern kind the validator does not know.
\<close>

definition randomOptions :: Options where
  "randomOptions = exampleOptions\<lparr>generatorPattern := Random\<rparr>"

text \<open>
  The example run at the head of the loop before the first pass, for any options; then
  with the five pushed pages delivered; then after \<open>k\<close> readout steps.
\<close>

definition exampleFilled :: "Options \<Rightarrow> state" where
  "exampleFilled opts =
     (case runDma opts 0 [] exampleFinal exampleInit of Running s \<Rightarrow> s | _ \<Rightarrow> blankState)"

definition allArrive :: LoopInput where
  "allArrive = (exampleInput 0)\<lparr>transfers := map exampleTransfer [0..<5]\<rparr>"

primrec exampleRead :: "Options \<Rightarrow> nat \<Rightarrow> state" where
  "exampleRead opts 0 = dmaArrive allArrive (exampleFilled opts)"
| "exampleRead opts (Suc k) = projr (readoutStep opts (exampleInput 0) (exampleRead opts k))"

declare exampleRead.simps [simp del]

text \<open>
  A pass in which the card delivers nothing; the same with the temperature monitor
  reporting "maximum exceeded"; the same with an interrupt pending; and the same with
  the interrupt pending and the clock 20 ms further.
\<close>

definition idleInput :: LoopInput where
  "idleInput = (exampleInput 0)\<lparr>transfers := []\<rparr>"

definition overheatInput :: LoopInput where
  "overheatInput = idleInput\<lparr>isMaxExceeded := True\<rparr>"

definition interruptInput :: LoopInput where
  "interruptInput = idleInput\<lparr>isSigInt := True\<rparr>"

definition timeoutInput :: LoopInput where
  "timeoutInput = interruptInput\<lparr>nowSigintCheck := milliseconds 20\<rparr>"

text \<open>How a run has stopped: the exit taken, the pages read out, the queue, and whether
  the interrupt handling had started.\<close>

definition stoppedWith :: "outcome \<Rightarrow> (stop \<times> int \<times> Handle list \<times> bool) option" where
  "stoppedWith out =
     (case out of
        Stopped r s \<Rightarrow> Some (r, mReadoutCounter s, mQueue s, mHandlingSigint s)
      | _ \<Rightarrow> None)"

section \<open>The header decoder\<close>

lemma getWord3_of_bytes:
  fixes d :: "u8 list"
  assumes "length d = 64" "take 4 (drop 12 d) = [b0, b1, b2, b3]"
  shows "getWord d 3 = Some (ucast b0 OR push_bit 8 (ucast b1) OR push_bit 16 (ucast b2)
                              OR push_bit 24 (ucast b3))"
proof -
  have "take 4 (drop 12 d) ! k = d ! (12 + k)" if "k < 4" for k
    using that assms(1) by simp
  from this [of 0] this [of 1] this [of 2] this [of 3] assms(2)
  have "d ! 12 = b0 \<and> d ! 13 = b1 \<and> d ! 14 = b2 \<and> d ! 15 = b3"
    by simp
  then show ?thesis
    using assms(1) by (simp add: getWord_def)
qed

lemma getWord3_depends_on_bytes_12_to_15:
  fixes d d' :: "u8 list"
  assumes "length d = 64" "length d' = 64" "take 4 (drop 12 d) = take 4 (drop 12 d')"
  shows "getWord d 3 = getWord d' 3"
proof -
  have "d ! (12 + k) = d' ! (12 + k)" if "k < 4" for k
  proof -
    have "take 4 (drop 12 d) ! k = d ! (12 + k)" "take 4 (drop 12 d') ! k = d' ! (12 + k)"
      using that assms(1,2) by simp_all
    with assms(3) show ?thesis by simp
  qed
  from this [of 0] this [of 1] this [of 2] this [of 3] show ?thesis
    using assms(1,2) by (simp add: getWord_def)
qed

text \<open>
  C9. For every 64-byte header whose bytes 12 to 15, the little-endian word 3, are
  \<open>34 12 00 00\<close>, \<open>getLinkId\<close> returns \<open>0x34\<close> and \<open>getPacketCounter\<close> returns
  \<open>0x12\<close>; and two 64-byte headers that agree on those four bytes give the same link id
  and the same packet counter, whatever their other bytes are.
\<close>

theorem getLinkId_getPacketCounter_word3:
  assumes "length data = 64"
    and "take 4 (drop 12 data) = [0x34, 0x12, 0x00, 0x00]"
  shows "getLinkId data = Some 0x34 \<and> getPacketCounter data = Some 0x12 \<and>
         (\<forall>d d'. length d = 64 \<longrightarrow> length d' = 64 \<longrightarrow> take 4 (drop 12 d) = take 4 (drop 12 d') \<longrightarrow>
                 getLinkId d = getLinkId d' \<and> getPacketCounter d = getPacketCounter d')"
proof -
  have "getWord data 3 = Some 0x1234"
    using getWord3_of_bytes [OF assms] by simp
  then have "getLinkId data = Some 0x34" "getPacketCounter data = Some 0x12"
    by (simp_all add: getLinkId_def getPacketCounter_def getBits_def)
  moreover have "getLinkId d = getLinkId d' \<and> getPacketCounter d = getPacketCounter d'"
    if "length d = 64" "length d' = 64" "take 4 (drop 12 d) = take 4 (drop 12 d')" for d d'
    using getWord3_depends_on_bytes_12_to_15 [OF that]
    by (simp add: getLinkId_def getPacketCounter_def)
  ultimately show ?thesis by blast
qed

theorem getLinkId_getPacketCounter_word3_witness:
  "getLinkId exampleHeader = Some 0x34 \<and> getPacketCounter exampleHeader = Some 0x12"
  using getLinkId_getPacketCounter_word3 [of exampleHeader]
  by (simp add: exampleHeader_def)

section \<open>The page validator checks every eighth word\<close>









text \<open>
  C7. \<open>checkErrors\<close> raises, with the unrecognized-pattern error, exactly when the pattern
  is none of incremental, alternating and constant; for these three it returns a result
  (error flag and state) whatever the page holds.
\<close>

theorem checkErrors_raises_iff_unrecognized:
  "(checkErrors opts pattern handle eventNumber counter s = Inl (UnrecognizedGeneratorPattern pattern))
     = (pattern \<notin> {Incremental, Alternating, Constant})
   \<and> ((\<exists>hasError s'. checkErrors opts pattern handle eventNumber counter s = Inr (hasError, s'))
     = (pattern \<in> {Incremental, Alternating, Constant}))
   \<and> ((\<exists>e. checkErrors opts pattern handle eventNumber counter s = Inl e)
     = (pattern \<notin> {Incremental, Alternating, Constant}))"
  by (cases pattern) (auto simp: checkErrors_def intro: prod.exhaust)

theorem checkErrors_raises_iff_unrecognized_witness:
  "checkErrors exampleOptions Random exampleHandle 0 100 goodState = Inl (UnrecognizedGeneratorPattern Random)
   \<and> (\<exists>hasError s'. checkErrors exampleOptions Alternating exampleHandle 0 100 goodState = Inr (hasError, s'))"
  using checkErrors_raises_iff_unrecognized [of exampleOptions Random exampleHandle 0 100 goodState]
        checkErrors_raises_iff_unrecognized [of exampleOptions Alternating exampleHandle 0 100 goodState]
  by simp

section \<open>What each operation changes\<close>

subsection \<open>emit\<close>

lemma ctl_emit [simp]: "ctl (emit ev s) = ctl s"
  by (simp add: ctl_def emit_def)

lemma trace_emit [simp]: "trace (emit ev s) = trace s @ [ev]"
  by (simp add: emit_def)

lemma logged_emit:
  "logged (emit ev s) =
     (pushed (trace s) @ pushedOf ev, popped (trace s) @ poppedOf ev,
      ackStep (foldl ackStep ([], []) (trace s)) ev,
      numAcks (trace s) + (if ev = EvAcknowledge then 1 else 0),
      summaries (trace s) @ summaryOf ev)"
  by (simp add: logged_def pushed_def popped_def numAcks_def summaries_def)

lemma logged_trace_eq: "trace s' = trace s \<Longrightarrow> logged s' = logged s"
  by (simp add: logged_def)

lemma ackStep_neutral [simp]:
  "ackStep st (EvPush h) = st"
  "ackStep st (EvPrintToFile n p) = st"
  "ackStep st (EvCheckErrors p) = st"
  "ackStep st (EvResetPage p) = st"
  "ackStep st (EvStatusReset d) = st"
  "ackStep st (EvReadoutCounter n) = st"
  "ackStep st (EvIdleLog n i) = st"
  "ackStep st (EvPop h) = st"
  "ackStep st (EvConsole m) = st"
  "ackStep st EvStatusHeader = st"
  "ackStep st EvStatusDisplay = st"
  "ackStep st (EvSleep n) = st"
  "ackStep st (EvDataEmulatorControl w) = st"
  "ackStep st (EvDataEmulatorEnabled b) = st"
  "ackStep st (EvOutputErrors es) = st"
  "ackStep st (EvOutputStats x) = st"
  by (cases st; simp)+

lemma ackStep_readout: "ackStep st (EvReadoutPage h) = (fst st, snd st @ [h])"
  by (cases st) simp

lemma ackStep_ack: "ackStep st EvAcknowledge = (fst st @ snd st, [])"
  by (cases st) simp

subsection \<open>low priority tasks\<close>

lemma statusDisplayTask_ctl [simp]: "ctl (statusDisplayTask opts inp s) = ctl s"
  by (simp add: statusDisplayTask_def isStatusDisplayInterval_def Let_def ctl_def emit_def)

lemma statusDisplayTask_logged [simp]: "logged (statusDisplayTask opts inp s) = logged s"
  by (simp add: statusDisplayTask_def isStatusDisplayInterval_def Let_def logged_def emit_def
      pushed_def popped_def numAcks_def summaries_def)

lemma randomPauseSoftTask_ctl [simp]: "ctl (randomPauseSoftTask opts inp s) = ctl s"
  by (simp add: randomPauseSoftTask_def Let_def ctl_def emit_def)

lemma randomPauseSoftTask_logged [simp]: "logged (randomPauseSoftTask opts inp s) = logged s"
  by (simp add: randomPauseSoftTask_def Let_def logged_def emit_def
      pushed_def popped_def numAcks_def summaries_def)

lemma randomPauseFirmTask_ctl [simp]: "ctl (randomPauseFirmTask opts inp s) = ctl s"
  by (simp add: randomPauseFirmTask_def Let_def ctl_def emit_def)

lemma randomPauseFirmTask_logged [simp]: "logged (randomPauseFirmTask opts inp s) = logged s"
  by (simp add: randomPauseFirmTask_def Let_def logged_def emit_def
      pushed_def popped_def numAcks_def summaries_def)

lemma lowPriorityTasks_logged [simp]: "logged (lowPriorityTasks opts inp s) = logged s"
proof -
  have base: "logged (s\<lparr>mLowPriorityCounter := n\<rparr>) = logged s" for n
    by (simp add: logged_def)
  have upd: "logged (t\<lparr>mDmaLoopBreak := True\<rparr>) = logged t" for t
    by (simp add: logged_def)
  have sig: "logged (t\<lparr>mHandlingSigintStart := a, mHandlingSigint := True, mPushEnabled := False\<rparr>) = logged t" for t a
    by (simp add: logged_def)
  have con: "logged (emit (EvConsole m) t) = logged t" for m t
    by (simp add: logged_emit) (simp add: logged_def)
  show ?thesis
    by (simp add: lowPriorityTasks_def Let_def base upd sig con)
qed


lemma lowPriorityTasks_ctl:
  "\<exists>pe lb hs. ctl (lowPriorityTasks opts inp s) =
      ((mQueue s, mPushCounter s, mReadoutCounter s, pe, lb, hs),
       statusEntries s, mPageAddresses s, mPageIndexCounter s, mDescriptorCounter s)"
proof -
  have shape: "ctl t = ctl u \<Longrightarrow> ctl (t\<lparr>mDmaLoopBreak := True\<rparr>) =
      ((mQueue u, mPushCounter u, mReadoutCounter u, mPushEnabled u, True, mHandlingSigint u),
       statusEntries u, mPageAddresses u, mPageIndexCounter u, mDescriptorCounter u)" for t u
    by (simp add: ctl_def)
  show ?thesis
    by (simp add: lowPriorityTasks_def Let_def shape) (auto simp: ctl_def)
qed

lemma lowPriorityTasks_quiet:
  "\<not> isSigInt inp \<Longrightarrow> \<not> isMaxExceeded inp \<Longrightarrow> ctl (lowPriorityTasks opts inp s) = ctl s"
  by (simp add: lowPriorityTasks_def Let_def) (simp add: ctl_def)

lemma lowPriorityTasks_counter:
  "mLowPriorityCounter (lowPriorityTasks opts inp s) =
     (if mLowPriorityCounter s < LOW_PRIORITY_INTERVAL then mLowPriorityCounter s + 1 else 0)"
proof -
  have a: "mLowPriorityCounter (statusDisplayTask opts inp t) = mLowPriorityCounter t" for t
    by (simp add: statusDisplayTask_def isStatusDisplayInterval_def Let_def emit_def)
  have b: "mLowPriorityCounter (randomPauseSoftTask opts inp t) = mLowPriorityCounter t" for t
    by (simp add: randomPauseSoftTask_def Let_def emit_def)
  have c: "mLowPriorityCounter (randomPauseFirmTask opts inp t) = mLowPriorityCounter t" for t
    by (simp add: randomPauseFirmTask_def Let_def emit_def)
  show ?thesis
    by (simp add: lowPriorityTasks_def Let_def a b c emit_def)
qed

subsection \<open>DMA transfers\<close>

lemma foldl_applyTransfer_trace: "trace (foldl applyTransfer s ts) = trace s"
  by (induction ts arbitrary: s) (simp_all add: applyTransfer_def)

lemma foldl_applyTransfer_ctl:
  "ctl (foldl applyTransfer s ts) =
     ((mQueue s, mPushCounter s, mReadoutCounter s, mPushEnabled s, mDmaLoopBreak s, mHandlingSigint s),
      (\<lambda>d. statusEntries s d \<or> d \<in> dmaDescriptor ` set ts),
      mPageAddresses s, mPageIndexCounter s, mDescriptorCounter s)"
proof (induction ts arbitrary: s)
  case Nil
  then show ?case by (simp add: ctl_def)
next
  case (Cons t ts)
  show ?case
    by (simp add: Cons.IH) (auto simp: applyTransfer_def fun_eq_iff)
qed

lemma dmaArrive_ctl:
  "ctl (dmaArrive inp s) =
     ((mQueue s, mPushCounter s, mReadoutCounter s, mPushEnabled s, mDmaLoopBreak s, mHandlingSigint s),
      (\<lambda>d. statusEntries s d \<or> d \<in> dmaDescriptor ` set (transfers inp)),
      mPageAddresses s, mPageIndexCounter s, mDescriptorCounter s)"
  by (simp add: dmaArrive_def foldl_applyTransfer_ctl)

lemma dmaArrive_logged [simp]: "logged (dmaArrive inp s) = logged s"
  by (simp add: dmaArrive_def logged_def foldl_applyTransfer_trace)

lemma dmaArrive_counter [simp]: "mLowPriorityCounter (dmaArrive inp s) = mLowPriorityCounter s"
proof -
  have "mLowPriorityCounter (foldl applyTransfer s ts) = mLowPriorityCounter s" for ts
    by (induction ts arbitrary: s) (simp_all add: applyTransfer_def)
  then show ?thesis by (simp add: dmaArrive_def)
qed

subsection \<open>pushPage\<close>

lemma pushPage_succeeds:
  "mPageIndexCounter s < length (mPageAddresses s) \<Longrightarrow> \<exists>s'. pushPage s = Inr s'"
  by (simp add: pushPage_def setDescriptor_def Let_def)

lemma pushPage_fails:
  "pushPage s = Inl e \<Longrightarrow> \<not> mPageIndexCounter s < length (mPageAddresses s)"
  by (auto simp: pushPage_def setDescriptor_def Let_def split: if_splits)

lemma pushPage_ctl:
  assumes "pushPage s = Inr s'"
  shows "ctl s' =
     ((queuePush \<lparr>descriptorIndex = mDescriptorCounter s, pageIndex = mPageIndexCounter s\<rparr> (mQueue s),
       mPushCounter s + 1, mReadoutCounter s, mPushEnabled s, mDmaLoopBreak s, mHandlingSigint s),
      statusEntries s, mPageAddresses s,
      (mPageIndexCounter s + 1) mod length (mPageAddresses s),
      (mDescriptorCounter s + 1) mod NUM_PAGES)"
  using assms
  by (auto simp: pushPage_def setDescriptor_def Let_def ctl_def emit_def split: if_splits)

lemma pushPage_logged:
  assumes "pushPage s = Inr s'"
  shows "logged s' =
     (pushed (trace s) @ [\<lparr>descriptorIndex = mDescriptorCounter s, pageIndex = mPageIndexCounter s\<rparr>],
      popped (trace s), foldl ackStep ([], []) (trace s), numAcks (trace s), summaries (trace s))"
  using assms
  by (auto simp: pushPage_def setDescriptor_def Let_def logged_def emit_def pushed_def popped_def
      numAcks_def summaries_def split: if_splits)

lemma pushPage_counter:
  "pushPage s = Inr s' \<Longrightarrow> mLowPriorityCounter s' = mLowPriorityCounter s"
  by (auto simp: pushPage_def setDescriptor_def Let_def emit_def split: if_splits)

subsection \<open>readout\<close>

lemma check_ctl: "ctl (snd (check opts h n f s)) = ctl s"
  by (simp add: check_def Let_def ctl_def split: option.splits prod.splits)

lemma check_trace: "trace (snd (check opts h n f s)) = trace s"
  by (simp add: check_def Let_def split: option.splits prod.splits)

lemma check_counter: "mLowPriorityCounter (snd (check opts h n f s)) = mLowPriorityCounter s"
  by (simp add: check_def Let_def split: option.splits prod.splits)

lemma check_start: "mRunTimeStart (snd (check opts h n f s)) = mRunTimeStart s"
  by (simp add: check_def Let_def split: option.splits prod.splits)

lemma check_pair:
  "check opts h n f s = (b, s')
     \<Longrightarrow> ctl s' = ctl s \<and> trace s' = trace s \<and> mLowPriorityCounter s' = mLowPriorityCounter s
         \<and> mRunTimeStart s' = mRunTimeStart s"
  using check_ctl [of opts h n f s] check_trace [of opts h n f s] check_counter [of opts h n f s]
    check_start [of opts h n f s]
  by simp

lemma checkErrors_Inr:
  assumes "checkErrors opts pat h n c s = Inr (b, s')"
  shows "ctl s' = ctl s \<and> trace s' = trace s \<and> mLowPriorityCounter s' = mLowPriorityCounter s
         \<and> mRunTimeStart s' = mRunTimeStart s"
proof (cases pat)
  case Incremental
  with assms show ?thesis by (simp add: checkErrors_def check_pair)
next
  case Alternating
  with assms show ?thesis by (simp add: checkErrors_def check_pair)
next
  case Constant
  with assms show ?thesis by (simp add: checkErrors_def check_pair)
qed (use assms in \<open>simp_all add: checkErrors_def\<close>)

lemma checkErrors_recognized:
  assumes "pat = Incremental \<or> pat = Alternating \<or> pat = Constant"
  shows "\<exists>b s'. checkErrors opts pat h n c s = Inr (b, s')"
proof -
  from assms have "\<exists>r. checkErrors opts pat h n c s = Inr r"
    by (auto simp: checkErrors_def)
  then obtain r where "checkErrors opts pat h n c s = Inr r" ..
  then show ?thesis by (cases r) auto
qed

lemma dataErrorChecking_Inr:
  assumes "dataErrorChecking opts h s = Inr s'"
  shows "ctl s' = ctl s \<and> trace s' = trace s @ [EvCheckErrors (pageIndex h)]
         \<and> mLowPriorityCounter s' = mLowPriorityCounter s \<and> mRunTimeStart s' = mRunTimeStart s"
proof -
  define s1 where "s1 = (if mDataGeneratorCounter s = - 1
                then s\<lparr>mDataGeneratorCounter := uint (getPageAddress s h 0)\<rparr> else s)"
  have s1: "ctl s1 = ctl s" "trace s1 = trace s" "mLowPriorityCounter s1 = mLowPriorityCounter s"
    "mRunTimeStart s1 = mRunTimeStart s"
    by (simp_all add: s1_def ctl_def)
  from assms obtain b s2 where
    ce: "checkErrors opts (generatorPattern opts) h (mReadoutCounter s1)
           (word_of_int (mDataGeneratorCounter s1)) (emit (EvCheckErrors (pageIndex h)) s1) = Inr (b, s2)"
    and s': "s' = (if b \<and> resyncCounter opts
                  then s2\<lparr>mDataGeneratorCounter := uint (getPageAddress s2 h 0)\<rparr> else s2)"
    by (auto simp: dataErrorChecking_def Let_def s1_def [symmetric] split: sum.splits prod.splits)
  from checkErrors_Inr [OF ce] s1
  have "ctl s2 = ctl s" "trace s2 = trace s @ [EvCheckErrors (pageIndex h)]"
       "mLowPriorityCounter s2 = mLowPriorityCounter s" "mRunTimeStart s2 = mRunTimeStart s"
    by (simp_all add: emit_def ctl_def)
  then show ?thesis
    by (simp add: s' ctl_def)
qed

lemma dataErrorChecking_recognized:
  assumes "recognized opts"
  shows "\<exists>s'. dataErrorChecking opts h s = Inr s'"
proof -
  define s1 where "s1 = (if mDataGeneratorCounter s = - 1
                then s\<lparr>mDataGeneratorCounter := uint (getPageAddress s h 0)\<rparr> else s)"
  from checkErrors_recognized [of "generatorPattern opts" opts h "mReadoutCounter s1"
      "word_of_int (mDataGeneratorCounter s1)" "emit (EvCheckErrors (pageIndex h)) s1"] assms
  obtain b s2 where
    "checkErrors opts (generatorPattern opts) h (mReadoutCounter s1)
           (word_of_int (mDataGeneratorCounter s1)) (emit (EvCheckErrors (pageIndex h)) s1) = Inr (b, s2)"
    by (auto simp: recognized_def)
  then show ?thesis
    by (simp add: dataErrorChecking_def Let_def s1_def [symmetric])
qed

lemma printToFile_effect:
  "fileOutputAscii opts \<or> fileOutputBin opts \<Longrightarrow>
   ctl (printToFile opts h n s) = ctl s \<and> trace (printToFile opts h n s) = trace s @ [EvPrintToFile n (pageIndex h)]
   \<and> mLowPriorityCounter (printToFile opts h n s) = mLowPriorityCounter s
   \<and> mRunTimeStart (printToFile opts h n s) = mRunTimeStart s"
  by (auto simp: printToFile_def emit_def ctl_def)

lemma finish_effect:
  "ctl (countReadout (statusReset d (resetPage p s))) =
     ((mQueue s, mPushCounter s, mReadoutCounter s + 1, mPushEnabled s, mDmaLoopBreak s, mHandlingSigint s),
      (statusEntries s)(d := False), mPageAddresses s, mPageIndexCounter s, mDescriptorCounter s)"
  "trace (countReadout (statusReset d (resetPage p s))) =
     trace s @ [EvResetPage p, EvStatusReset d, EvReadoutCounter (mReadoutCounter s + 1)]"
  "mLowPriorityCounter (countReadout (statusReset d (resetPage p s))) = mLowPriorityCounter s"
  "i < DMA_PAGE_SIZE_32 \<Longrightarrow> pageMem (countReadout (statusReset d (resetPage p s))) p i = BUFFER_DEFAULT_VALUE"
  "mRunTimeStart (countReadout (statusReset d (resetPage p s))) = mRunTimeStart s"
  by (simp_all add: countReadout_def statusReset_def resetPage_def Let_def emit_def ctl_def)

lemma readoutPage_Inr:
  assumes "readoutPage opts h s = Inr s'"
  shows "ctl s' =
     ((mQueue s, mPushCounter s, mReadoutCounter s + 1, mPushEnabled s, mDmaLoopBreak s, mHandlingSigint s),
      (statusEntries s)(descriptorIndex h := False), mPageAddresses s, mPageIndexCounter s,
      mDescriptorCounter s)"
    and "trace s' = trace s @ [EvReadoutPage h] @ fileEvents opts h s @ checkEvents opts h @
           [EvResetPage (pageIndex h), EvStatusReset (descriptorIndex h),
            EvReadoutCounter (mReadoutCounter s + 1)]"
    and "mLowPriorityCounter s' = mLowPriorityCounter s"
    and "\<forall>i<DMA_PAGE_SIZE_32. pageMem s' (pageIndex h) i = BUFFER_DEFAULT_VALUE"
    and "mRunTimeStart s' = mRunTimeStart s"
proof -
  define s0 where "s0 = emit (EvReadoutPage h) s"
  define s1 where "s1 = (if fileOutputAscii opts \<or> fileOutputBin opts
                then printToFile opts h (mReadoutCounter s0) s0 else s0)"
  have s0: "ctl s0 = ctl s" "trace s0 = trace s @ [EvReadoutPage h]"
    "mLowPriorityCounter s0 = mLowPriorityCounter s" "mRunTimeStart s0 = mRunTimeStart s"
    by (simp_all add: s0_def) (simp_all add: emit_def)
  have rc0: "mReadoutCounter s0 = mReadoutCounter s"
    by (simp add: s0_def emit_def)
  have s1: "ctl s1 = ctl s" "trace s1 = trace s @ [EvReadoutPage h] @ fileEvents opts h s"
    "mLowPriorityCounter s1 = mLowPriorityCounter s" "mRunTimeStart s1 = mRunTimeStart s"
    using s0 printToFile_effect [of opts h "mReadoutCounter s0" s0]
    by (auto simp: s1_def fileEvents_def rc0)
  have "readoutPage opts h s =
      (case (if checkError opts then dataErrorChecking opts h s1 else Inr s1) of
         Inl e \<Rightarrow> Inl e
       | Inr s2 \<Rightarrow> Inr (countReadout (statusReset (descriptorIndex h) (resetPage (pageIndex h) s2))))"
    by (simp add: readoutPage_def Let_def s1_def s0_def)
  with assms obtain s2 where
    s2: "(if checkError opts then dataErrorChecking opts h s1 else Inr s1) = Inr s2"
    and s': "s' = countReadout (statusReset (descriptorIndex h) (resetPage (pageIndex h) s2))"
    by (auto split: sum.splits)
  have "ctl s2 = ctl s \<and> trace s2 = trace s @ [EvReadoutPage h] @ fileEvents opts h s @ checkEvents opts h
        \<and> mLowPriorityCounter s2 = mLowPriorityCounter s \<and> mRunTimeStart s2 = mRunTimeStart s"
  proof (cases "checkError opts")
    case True
    with s2 have "dataErrorChecking opts h s1 = Inr s2" by simp
    from dataErrorChecking_Inr [OF this] s1 True show ?thesis
      by (simp add: checkEvents_def)
  next
    case False
    with s2 s1 show ?thesis by (simp add: checkEvents_def)
  qed
  then have c: "ctl s2 = ctl s" and t: "trace s2 = trace s @ [EvReadoutPage h] @ fileEvents opts h s @ checkEvents opts h"
    and l: "mLowPriorityCounter s2 = mLowPriorityCounter s"
    and r: "mRunTimeStart s2 = mRunTimeStart s"
    by simp_all
  from c have fields: "mQueue s2 = mQueue s" "mPushCounter s2 = mPushCounter s"
    "mReadoutCounter s2 = mReadoutCounter s" "mPushEnabled s2 = mPushEnabled s"
    "mDmaLoopBreak s2 = mDmaLoopBreak s" "mHandlingSigint s2 = mHandlingSigint s"
    "statusEntries s2 = statusEntries s" "mPageAddresses s2 = mPageAddresses s"
    "mPageIndexCounter s2 = mPageIndexCounter s" "mDescriptorCounter s2 = mDescriptorCounter s"
    by (simp_all add: ctl_def)
  show "ctl s' =
     ((mQueue s, mPushCounter s, mReadoutCounter s + 1, mPushEnabled s, mDmaLoopBreak s, mHandlingSigint s),
      (statusEntries s)(descriptorIndex h := False), mPageAddresses s, mPageIndexCounter s,
      mDescriptorCounter s)"
    by (simp add: s' finish_effect fields)
  show "trace s' = trace s @ [EvReadoutPage h] @ fileEvents opts h s @ checkEvents opts h @
           [EvResetPage (pageIndex h), EvStatusReset (descriptorIndex h),
            EvReadoutCounter (mReadoutCounter s + 1)]"
    by (simp add: s' finish_effect fields t)
  show "mLowPriorityCounter s' = mLowPriorityCounter s"
    by (simp add: s' finish_effect l)
  show "\<forall>i<DMA_PAGE_SIZE_32. pageMem s' (pageIndex h) i = BUFFER_DEFAULT_VALUE"
    by (simp add: s' finish_effect)
  show "mRunTimeStart s' = mRunTimeStart s"
    by (simp add: s' finish_effect r)
qed

lemma readoutPage_succeeds:
  assumes "\<not> checkError opts \<or> recognized opts"
  shows "\<exists>s'. readoutPage opts h s = Inr s'"
proof (cases "checkError opts")
  case True
  with assms have r: "recognized opts" by simp
  define s1 where "s1 = (if fileOutputAscii opts \<or> fileOutputBin opts
                then printToFile opts h (mReadoutCounter (emit (EvReadoutPage h) s)) (emit (EvReadoutPage h) s)
                else emit (EvReadoutPage h) s)"
  from dataErrorChecking_recognized [OF r, of h s1] obtain s2 where
    "dataErrorChecking opts h s1 = Inr s2" ..
  with True show ?thesis
    by (simp add: readoutPage_def Let_def s1_def [symmetric])
next
  case False
  then show ?thesis by (simp add: readoutPage_def Let_def)
qed

lemma readoutPage_fails:
  "readoutPage opts h s = Inl e \<Longrightarrow> checkError opts \<and> \<not> recognized opts"
  using readoutPage_succeeds [of opts h s] by auto


lemma acknowledgePage_effect:
  "ctl (acknowledgePage opts inp s) = ctl s"
  "trace (acknowledgePage opts inp s) = trace s @ ackEvents opts inp s"
  "mLowPriorityCounter (acknowledgePage opts inp s) = mLowPriorityCounter s"
  "pageMem (acknowledgePage opts inp s) = pageMem s"
  by (simp_all add: acknowledgePage_def Let_def ackEvents_def emit_def ctl_def)

lemma queuePop_effect:
  "ctl (queuePop s) =
     ((tl (mQueue s), mPushCounter s, mReadoutCounter s, mPushEnabled s, mDmaLoopBreak s, mHandlingSigint s),
      statusEntries s, mPageAddresses s, mPageIndexCounter s, mDescriptorCounter s)"
  "trace (queuePop s) = trace s @ [EvPop (hd (mQueue s))]"
  "mLowPriorityCounter (queuePop s) = mLowPriorityCounter s"
  "pageMem (queuePop s) = pageMem s"
  by (simp_all add: queuePop_def emit_def ctl_def)

lemma readoutStep_Inr:
  assumes "readoutStep opts inp s = Inr s'"
  shows "ctl s' =
     ((tl (mQueue s), mPushCounter s, mReadoutCounter s + 1, mPushEnabled s, mDmaLoopBreak s,
       mHandlingSigint s),
      (statusEntries s)(descriptorIndex (hd (mQueue s)) := False), mPageAddresses s,
      mPageIndexCounter s, mDescriptorCounter s)"
    and "trace s' = trace s @ [EvReadoutPage (hd (mQueue s))] @ fileEvents opts (hd (mQueue s)) s
           @ checkEvents opts (hd (mQueue s))
           @ [EvResetPage (pageIndex (hd (mQueue s))), EvStatusReset (descriptorIndex (hd (mQueue s))),
              EvReadoutCounter (mReadoutCounter s + 1)]
           @ stepAckEvents opts inp s @ [EvPop (hd (mQueue s))]"
    and "mLowPriorityCounter s' = mLowPriorityCounter s"
    and "\<forall>i<DMA_PAGE_SIZE_32. pageMem s' (pageIndex (hd (mQueue s))) i = BUFFER_DEFAULT_VALUE"
proof -
  let ?h = "hd (mQueue s)"
  from assms obtain s1 where rp: "readoutPage opts ?h s = Inr s1"
    and s': "s' = queuePop (if legacyAck opts
                     then (if mReadoutCounter s1 mod 4 = 0 then acknowledgePage opts inp s1 else s1)
                     else acknowledgePage opts inp s1)"
    by (auto simp: readoutStep_def Let_def split: sum.splits)
  define s2 where "s2 = (if legacyAck opts
                     then (if mReadoutCounter s1 mod 4 = 0 then acknowledgePage opts inp s1 else s1)
                     else acknowledgePage opts inp s1)"
  note r = readoutPage_Inr [OF rp]
  from r(1) have rc: "mReadoutCounter s1 = mReadoutCounter s + 1"
    by (simp add: ctl_def)
  have ae: "ackEvents opts inp s1 = ackEvents opts inp s"
    by (simp add: ackEvents_def r(5))
  have c2: "ctl s2 = ctl s1"
    by (simp add: s2_def acknowledgePage_effect)
  have t2: "trace s2 = trace s1 @ stepAckEvents opts inp s"
    by (simp add: s2_def acknowledgePage_effect stepAckEvents_def rc ae)
  have l2: "mLowPriorityCounter s2 = mLowPriorityCounter s1" and p2: "pageMem s2 = pageMem s1"
    by (simp_all add: s2_def acknowledgePage_effect)
  from c2 r(1) have f2: "mQueue s2 = mQueue s" "mPushCounter s2 = mPushCounter s"
    "mReadoutCounter s2 = mReadoutCounter s + 1" "mPushEnabled s2 = mPushEnabled s"
    "mDmaLoopBreak s2 = mDmaLoopBreak s" "mHandlingSigint s2 = mHandlingSigint s"
    "statusEntries s2 = (statusEntries s)(descriptorIndex ?h := False)"
    "mPageAddresses s2 = mPageAddresses s" "mPageIndexCounter s2 = mPageIndexCounter s"
    "mDescriptorCounter s2 = mDescriptorCounter s"
    by (simp_all add: ctl_def)
  have s'': "s' = queuePop s2"
    by (simp add: s' s2_def)
  show "ctl s' =
     ((tl (mQueue s), mPushCounter s, mReadoutCounter s + 1, mPushEnabled s, mDmaLoopBreak s,
       mHandlingSigint s),
      (statusEntries s)(descriptorIndex ?h := False), mPageAddresses s,
      mPageIndexCounter s, mDescriptorCounter s)"
    by (simp add: s'' queuePop_effect f2)
  show "trace s' = trace s @ [EvReadoutPage ?h] @ fileEvents opts ?h s @ checkEvents opts ?h
           @ [EvResetPage (pageIndex ?h), EvStatusReset (descriptorIndex ?h),
              EvReadoutCounter (mReadoutCounter s + 1)]
           @ stepAckEvents opts inp s @ [EvPop ?h]"
    by (simp add: s'' queuePop_effect t2 r(2) f2)
  show "mLowPriorityCounter s' = mLowPriorityCounter s"
    by (simp add: s'' queuePop_effect l2 r(3))
  show "\<forall>i<DMA_PAGE_SIZE_32. pageMem s' (pageIndex ?h) i = BUFFER_DEFAULT_VALUE"
    using r(4) by (simp add: s'' queuePop_effect p2)
qed

lemma readoutStep_succeeds:
  assumes "\<not> checkError opts \<or> recognized opts"
  shows "\<exists>s'. readoutStep opts inp s = Inr s'"
proof -
  from readoutPage_succeeds [OF assms, of "hd (mQueue s)" s] obtain s1 where
    "readoutPage opts (hd (mQueue s)) s = Inr s1" ..
  then show ?thesis by (simp add: readoutStep_def Let_def)
qed

subsection \<open>log functions on appended logs\<close>

lemma pushed_append [simp]: "pushed (a @ b) = pushed a @ pushed b"
  by (simp add: pushed_def)

lemma popped_append [simp]: "popped (a @ b) = popped a @ popped b"
  by (simp add: popped_def)

lemma numAcks_append [simp]: "numAcks (a @ b) = numAcks a + numAcks b"
  by (simp add: numAcks_def)

lemma summaries_append [simp]: "summaries (a @ b) = summaries a @ summaries b"
  by (simp add: summaries_def)

lemma log_nil [simp]: "pushed [] = []" "popped [] = []" "numAcks [] = 0" "summaries [] = []"
  by (simp_all add: pushed_def popped_def numAcks_def summaries_def)

lemma log_Cons [simp]:
  "pushed (ev # tr) = pushedOf ev @ pushed tr"
  "popped (ev # tr) = poppedOf ev @ popped tr"
  "numAcks (ev # tr) = (if ev = EvAcknowledge then 1 else 0) + numAcks tr"
  "summaries (ev # tr) = summaryOf ev @ summaries tr"
  by (simp_all add: pushed_def popped_def numAcks_def summaries_def)

lemma log_map_EvResetPage [simp]:
  "pushed (map EvResetPage ps) = []" "popped (map EvResetPage ps) = []"
  "numAcks (map EvResetPage ps) = 0" "summaries (map EvResetPage ps) = []"
  "foldl ackStep st (map EvResetPage ps) = st"
  by (induction ps) simp_all

subsection \<open>initialisation\<close>

lemma setDescriptors_frame:
  "setDescriptors is s = Inr s' \<Longrightarrow> \<exists>tab. s' = s\<lparr>descriptorEntries := tab\<rparr>"
proof (induction "is" arbitrary: s)
  case Nil
  then have "s' = s\<lparr>descriptorEntries := descriptorEntries s\<rparr>" by simp
  then show ?case by blast
next
  case (Cons i "is")
  from Cons.prems obtain s1 where a: "setDescriptor i i s = Inr s1" and b: "setDescriptors is s1 = Inr s'"
    by (auto split: sum.splits)
  from a obtain t1 where s1: "s1 = s\<lparr>descriptorEntries := t1\<rparr>"
    by (auto simp: setDescriptor_def split: if_splits)
  from Cons.IH [OF b] obtain t2 where "s' = s1\<lparr>descriptorEntries := t2\<rparr>" ..
  with s1 have "s' = s\<lparr>descriptorEntries := t2\<rparr>" by simp
  then show ?case by blast
qed

lemma setDescriptors_succeeds:
  "\<forall>i\<in>set is. i < length (mPageAddresses s) \<Longrightarrow> \<exists>s'. setDescriptors is s = Inr s'"
proof (induction "is" arbitrary: s)
  case Nil
  then show ?case by simp
next
  case (Cons i "is")
  then have "i < length (mPageAddresses s)" by simp
  then obtain s1 where a: "setDescriptor i i s = Inr s1" and p: "mPageAddresses s1 = mPageAddresses s"
    by (auto simp: setDescriptor_def)
  with Cons.IH [of s1] Cons.prems show ?case by simp
qed

lemma setDescriptors_entries:
  "setDescriptors is s = Inr s' \<Longrightarrow> i \<in> set is \<Longrightarrow> descriptorEntries s' i = descriptorFor s i"
proof (induction "is" arbitrary: s)
  case Nil
  then show ?case by simp
next
  case (Cons j "is")
  from Cons.prems(1) obtain s1 where a: "setDescriptor j j s = Inr s1" and b: "setDescriptors is s1 = Inr s'"
    by (auto split: sum.splits)
  from a have s1: "s1 = s\<lparr>descriptorEntries := (descriptorEntries s)(j := descriptorFor s j)\<rparr>"
    by (auto simp: setDescriptor_def descriptorFor_def split: if_splits)
  then have df: "descriptorFor s1 = descriptorFor s"
    by (simp add: descriptorFor_def fun_eq_iff)
  show ?case
  proof (cases "i \<in> set is")
    case True
    from Cons.IH [OF b True] df show ?thesis by simp
  next
    case False
    with Cons.prems(2) have ij: "i = j" by simp
    from setDescriptors_frame [OF b] obtain tab where "s' = s1\<lparr>descriptorEntries := tab\<rparr>" ..
    have "descriptorEntries s' i = descriptorEntries s1 i"
      using b False
    proof (induction "is" arbitrary: s1)
      case Nil
      then show ?case by simp
    next
      case (Cons k ks)
      from Cons.prems(1) obtain s2 where a2: "setDescriptor k k s1 = Inr s2" and b2: "setDescriptors ks s2 = Inr s'"
        by (auto split: sum.splits)
      from a2 Cons.prems(2) have "descriptorEntries s2 i = descriptorEntries s1 i"
        by (auto simp: setDescriptor_def split: if_splits)
      with Cons.IH [OF b2] Cons.prems(2) show ?case by simp
    qed
    with s1 ij show ?thesis by simp
  qed
qed

lemma resetBuffer_frame:
  "\<exists>mem. resetBuffer ps s = s\<lparr>pageMem := mem, trace := trace s @ map EvResetPage ps\<rparr>"
proof (induction ps arbitrary: s)
  case Nil
  have "resetBuffer [] s = s\<lparr>pageMem := pageMem s, trace := trace s @ map EvResetPage []\<rparr>" by simp
  then show ?case by blast
next
  case (Cons p ps)
  from Cons.IH [of "resetPage p s"] obtain mem where
    "resetBuffer ps (resetPage p s) =
       (resetPage p s)\<lparr>pageMem := mem, trace := trace (resetPage p s) @ map EvResetPage ps\<rparr>" ..
  then have "resetBuffer (p # ps) s = s\<lparr>pageMem := mem, trace := trace s @ map EvResetPage (p # ps)\<rparr>"
    by (simp add: resetPage_def emit_def)
  then show ?case by blast
qed

lemma initFifo_Inr:
  assumes "initFifo fifo pages s = Inr s'"
  shows "NUM_PAGES < length pages"
    and "\<exists>tab. s' = s\<lparr>mPageAddresses := pages, mFifoAddress := fifo, statusEntries := (\<lambda>i. False),
                       descriptorEntries := tab\<rparr>"
proof -
  from assms show len: "NUM_PAGES < length pages"
    by (auto simp: initFifo_def Let_def split: if_splits)
  with assms have "setDescriptors [0..<NUM_PAGES]
      (s\<lparr>mPageAddresses := pages, mFifoAddress := fifo, statusEntries := (\<lambda>i. False)\<rparr>) = Inr s'"
    by (simp add: initFifo_def Let_def)
  from setDescriptors_frame [OF this] obtain tab where
    "s' = s\<lparr>mPageAddresses := pages, mFifoAddress := fifo, statusEntries := (\<lambda>i. False),
            descriptorEntries := tab\<rparr>" by auto
  then show "\<exists>tab. s' = s\<lparr>mPageAddresses := pages, mFifoAddress := fifo, statusEntries := (\<lambda>i. False),
                       descriptorEntries := tab\<rparr>" by blast
qed

lemma initFifo_succeeds:
  assumes "NUM_PAGES < length pages"
  shows "\<exists>s'. initFifo fifo pages s = Inr s'"
proof -
  have "\<exists>s'. setDescriptors [0..<NUM_PAGES]
      (s\<lparr>mPageAddresses := pages, mFifoAddress := fifo, statusEntries := (\<lambda>i. False)\<rparr>) = Inr s'"
    by (rule setDescriptors_succeeds) (use assms in simp)
  with assms show ?thesis
    by (simp add: initFifo_def Let_def)
qed

lemma initDma_Inr:
  assumes "initDma fifo pages s = Inr s'"
  shows "NUM_PAGES < length pages"
    and "\<exists>tab mem. s' = s\<lparr>mPageAddresses := pages, mFifoAddress := fifo, statusEntries := (\<lambda>i. False),
                       descriptorEntries := tab, pageMem := mem,
                       trace := trace s @ map EvResetPage [0..<length pages]\<rparr>"
proof -
  from assms obtain s1 where a: "initFifo fifo pages s = Inr s1"
    and b: "initCard (resetBuffer [0..<length (mPageAddresses s1)] s1) = Inr s'"
    by (auto simp: initDma_def split: sum.splits)
  from initFifo_Inr [OF a] obtain tab where len: "NUM_PAGES < length pages"
    and s1: "s1 = s\<lparr>mPageAddresses := pages, mFifoAddress := fifo, statusEntries := (\<lambda>i. False),
                       descriptorEntries := tab\<rparr>" by blast
  from b have s': "s' = resetBuffer [0..<length (mPageAddresses s1)] s1"
    by (auto simp: initCard_def split: if_splits)
  from resetBuffer_frame [of "[0..<length (mPageAddresses s1)]" s1] obtain mem where
    "resetBuffer [0..<length (mPageAddresses s1)] s1 =
       s1\<lparr>pageMem := mem, trace := trace s1 @ map EvResetPage [0..<length (mPageAddresses s1)]\<rparr>" ..
  with s' s1 have "s' = s\<lparr>mPageAddresses := pages, mFifoAddress := fifo, statusEntries := (\<lambda>i. False),
                       descriptorEntries := tab, pageMem := mem,
                       trace := trace s @ map EvResetPage [0..<length pages]\<rparr>"
    by simp
  then show "\<exists>tab mem. s' = s\<lparr>mPageAddresses := pages, mFifoAddress := fifo, statusEntries := (\<lambda>i. False),
                       descriptorEntries := tab, pageMem := mem,
                       trace := trace s @ map EvResetPage [0..<length pages]\<rparr>" by blast
  show "NUM_PAGES < length pages" by (rule len)
qed

lemma initDma_succeeds:
  assumes "NUM_PAGES < length pages" "checkAlignment (bus fifo) DMA_ALIGNMENT"
  shows "\<exists>s'. initDma fifo pages s = Inr s'"
proof -
  from initFifo_succeeds [OF assms(1)] obtain s1 where a: "initFifo fifo pages s = Inr s1" ..
  from initFifo_Inr(2) [OF a] have f: "mFifoAddress s1 = fifo" by auto
  from resetBuffer_frame [of "[0..<length (mPageAddresses s1)]" s1]
  have "mFifoAddress (resetBuffer [0..<length (mPageAddresses s1)] s1) = fifo"
    using f by auto
  with a assms(2) show ?thesis
    by (simp add: initDma_def initCard_def)
qed

text \<open>The state in which the run starts.\<close>

lemma start_state:
  assumes "initDma fifo pages (programStart u) = Inr s"
  shows "ctl (getStarted opts start s) = (([], 0, 0, True, False, False), (\<lambda>i. False), pages, 0, 0)"
    and "logged (getStarted opts start s) = ([], [], ([], []), 0, [])"
    and "NUM_PAGES < length pages"
    and "mLowPriorityCounter (getStarted opts start s) = 0"
proof -
  from initDma_Inr [OF assms] obtain tab mem where len: "NUM_PAGES < length pages"
    and s: "s = (programStart u)\<lparr>mPageAddresses := pages, mFifoAddress := fifo,
                   statusEntries := (\<lambda>i. False), descriptorEntries := tab, pageMem := mem,
                   trace := trace (programStart u) @ map EvResetPage [0..<length pages]\<rparr>"
    by blast
  show "NUM_PAGES < length pages" by (rule len)
  show "ctl (getStarted opts start s) = (([], 0, 0, True, False, False), (\<lambda>i. False), pages, 0, 0)"
    by (simp add: s getStarted_def Let_def programStart_def ctl_def emit_def)
  show "logged (getStarted opts start s) = ([], [], ([], []), 0, [])"
    by (simp add: s getStarted_def Let_def programStart_def logged_def emit_def)
  show "mLowPriorityCounter (getStarted opts start s) = 0"
    by (simp add: s getStarted_def Let_def programStart_def emit_def)
qed

section \<open>The queue and the log in every state of a run\<close>

lemma queueInv_cong:
  "ctl s' = ctl s \<Longrightarrow> logged s' = logged s \<Longrightarrow> queueInv opts s' = queueInv opts s"
  by (simp add: queueInv_def ctl_def logged_def acknowledged_def awaitingAck_def)

lemma queueInvD:
  assumes "queueInv opts s"
  shows "length (mQueue s) \<le> NUM_PAGES"
    and "pushed (trace s) = acknowledged (trace s) @ awaitingAck (trace s) @ mQueue s"
    and "popped (trace s) = acknowledged (trace s) @ awaitingAck (trace s)"
    and "mReadoutCounter s = int (length (popped (trace s)))"
    and "mPushCounter s = int (length (pushed (trace s)))"
    and "numAcks (trace s) = (if legacyAck opts then length (popped (trace s)) div 4
                               else length (popped (trace s)))"
    and "length (awaitingAck (trace s)) = (if legacyAck opts then length (popped (trace s)) mod 4 else 0)"
    and "mPageIndexCounter s < length (mPageAddresses s)"
    and "summaries (trace s) = []"
  using assms unfolding queueInv_def by blast+

lemma queueInvI:
  assumes "length (mQueue s) \<le> NUM_PAGES"
    and "pushed (trace s) = acknowledged (trace s) @ awaitingAck (trace s) @ mQueue s"
    and "popped (trace s) = acknowledged (trace s) @ awaitingAck (trace s)"
    and "mReadoutCounter s = int (length (popped (trace s)))"
    and "mPushCounter s = int (length (pushed (trace s)))"
    and "numAcks (trace s) = (if legacyAck opts then length (popped (trace s)) div 4
                               else length (popped (trace s)))"
    and "length (awaitingAck (trace s)) = (if legacyAck opts then length (popped (trace s)) mod 4 else 0)"
    and "mPageIndexCounter s < length (mPageAddresses s)"
    and "summaries (trace s) = []"
  shows "queueInv opts s"
  using assms unfolding queueInv_def by blast

lemma queueInv_start:
  assumes "initDma fifo pages (programStart u) = Inr s"
  shows "queueInv opts (getStarted opts start s)"
proof -
  let ?t = "getStarted opts start s"
  from start_state(1) [OF assms, of opts start] have c: "mQueue ?t = []" "mPushCounter ?t = 0"
    "mReadoutCounter ?t = 0" "mPageAddresses ?t = pages" "mPageIndexCounter ?t = 0"
    by (simp_all add: ctl_def)
  from start_state(2) [OF assms, of opts start] have l: "pushed (trace ?t) = []"
    "popped (trace ?t) = []" "acknowledged (trace ?t) = []" "awaitingAck (trace ?t) = []"
    "numAcks (trace ?t) = 0" "summaries (trace ?t) = []"
    by (simp_all add: logged_def acknowledged_def awaitingAck_def)
  show ?thesis
    using start_state(3) [OF assms] by (intro queueInvI) (auto simp: c l)
qed

lemma queueInv_push:
  assumes inv: "queueInv opts s" and sp: "shouldPushQueue opts s" and pp: "pushPage s = Inr s'"
  shows "queueInv opts s'"
    and "mQueue s' = mQueue s @ [\<lparr>descriptorIndex = mDescriptorCounter s, pageIndex = mPageIndexCounter s\<rparr>]"
proof -
  let ?h = "\<lparr>descriptorIndex = mDescriptorCounter s, pageIndex = mPageIndexCounter s\<rparr>"
  from sp have room: "length (mQueue s) < NUM_PAGES"
    by (simp add: shouldPushQueue_def)
  from pushPage_ctl [OF pp] room have c: "mQueue s' = mQueue s @ [?h]"
    "mPushCounter s' = mPushCounter s + 1" "mReadoutCounter s' = mReadoutCounter s"
    "mPageAddresses s' = mPageAddresses s"
    "mPageIndexCounter s' = (mPageIndexCounter s + 1) mod length (mPageAddresses s)"
    by (simp_all add: ctl_def queuePush_def)
  from pushPage_logged [OF pp] have l: "pushed (trace s') = pushed (trace s) @ [?h]"
    "popped (trace s') = popped (trace s)" "acknowledged (trace s') = acknowledged (trace s)"
    "awaitingAck (trace s') = awaitingAck (trace s)" "numAcks (trace s') = numAcks (trace s)"
    "summaries (trace s') = summaries (trace s)"
    by (simp_all add: logged_def acknowledged_def awaitingAck_def)
  show "mQueue s' = mQueue s @ [?h]" by (rule c)
  note i = queueInvD [OF inv]
  from i(8) have "0 < length (mPageAddresses s)" by auto
  then have idx: "(mPageIndexCounter s + 1) mod length (mPageAddresses s) < length (mPageAddresses s)"
    by simp
  show "queueInv opts s'"
  proof (intro queueInvI)
    show "length (mQueue s') \<le> NUM_PAGES" using room by (simp add: c)
    show "pushed (trace s') = acknowledged (trace s') @ awaitingAck (trace s') @ mQueue s'"
      by (simp add: c l i(2))
    show "popped (trace s') = acknowledged (trace s') @ awaitingAck (trace s')"
      by (simp add: l i(3))
    show "mReadoutCounter s' = int (length (popped (trace s')))"
      by (simp add: c l i(4))
    show "mPushCounter s' = int (length (pushed (trace s')))"
      by (simp add: c l i(5))
    show "numAcks (trace s') = (if legacyAck opts then length (popped (trace s')) div 4
                               else length (popped (trace s')))"
      by (simp only: l i(6))
    show "length (awaitingAck (trace s')) = (if legacyAck opts then length (popped (trace s')) mod 4 else 0)"
      by (simp only: l i(7))
    show "mPageIndexCounter s' < length (mPageAddresses s')"
      using idx by (simp add: c)
    show "summaries (trace s') = []"
      by (simp add: l i(9))
  qed
qed

lemma logged_readoutStep:
  assumes "readoutStep opts inp s = Inr s'"
  shows "pushed (trace s') = pushed (trace s)"
    and "popped (trace s') = popped (trace s) @ [hd (mQueue s)]"
    and "summaries (trace s') = summaries (trace s)"
    and "numAcks (trace s') = numAcks (trace s)
           + (if legacyAck opts \<and> (mReadoutCounter s + 1) mod 4 \<noteq> 0 then 0 else 1)"
    and "acknowledged (trace s') =
           (if legacyAck opts \<and> (mReadoutCounter s + 1) mod 4 \<noteq> 0 then acknowledged (trace s)
            else acknowledged (trace s) @ awaitingAck (trace s) @ [hd (mQueue s)])"
    and "awaitingAck (trace s') =
           (if legacyAck opts \<and> (mReadoutCounter s + 1) mod 4 \<noteq> 0
            then awaitingAck (trace s) @ [hd (mQueue s)] else [])"
  using readoutStep_Inr(2) [OF assms]
  by (simp_all add: fileEvents_def checkEvents_def stepAckEvents_def ackEvents_def
      acknowledged_def awaitingAck_def ackStep_readout ackStep_ack)

lemma queueInv_readout:
  assumes inv: "queueInv opts s" and av: "readoutQueueHasPageAvailable s"
    and rs: "readoutStep opts inp s = Inr s'"
  shows "queueInv opts s'"
proof -
  from av obtain h q where q: "mQueue s = h # q"
    by (cases "mQueue s") (auto simp: readoutQueueHasPageAvailable_def)
  then have hd: "hd (mQueue s) = h" by simp
  from readoutStep_Inr(1) [OF rs] q have c: "mQueue s' = q" "mPushCounter s' = mPushCounter s"
    "mReadoutCounter s' = mReadoutCounter s + 1" "mPageAddresses s' = mPageAddresses s"
    "mPageIndexCounter s' = mPageIndexCounter s"
    by (simp_all add: ctl_def)
  note l = logged_readoutStep [OF rs, unfolded hd]
  note i = queueInvD [OF inv]
  define n where "n = length (popped (trace s))"
  have rc: "mReadoutCounter s = int n"
    by (simp add: i(4) n_def)
  define quiet where "quiet = (legacyAck opts \<and> (mReadoutCounter s + 1) mod 4 \<noteq> 0)"
  have "((int n + 1) mod 4 \<noteq> 0) = (Suc n mod 4 \<noteq> 0)"
    by presburger
  then have m: "quiet = (legacyAck opts \<and> Suc n mod 4 \<noteq> 0)"
    unfolding quiet_def rc by simp
  note l' = l [folded quiet_def]
  have len: "length (popped (trace s')) = Suc n"
    by (simp add: l' n_def)
  show ?thesis
  proof (intro queueInvI)
    show "length (mQueue s') \<le> NUM_PAGES" using i(1) by (simp add: c q)
    show "pushed (trace s') = acknowledged (trace s') @ awaitingAck (trace s') @ mQueue s'"
      by (simp add: c l' i(2) q)
    show "popped (trace s') = acknowledged (trace s') @ awaitingAck (trace s')"
      by (simp add: l' i(3))
    show "mReadoutCounter s' = int (length (popped (trace s')))"
      by (simp add: c len rc)
    show "mPushCounter s' = int (length (pushed (trace s')))"
      by (simp add: c l' i(5))
    show "numAcks (trace s') = (if legacyAck opts then length (popped (trace s')) div 4
                               else length (popped (trace s')))"
    proof (cases "legacyAck opts")
      case True
      with i(6) have "numAcks (trace s) = n div 4" by (simp add: n_def)
      moreover have "(n div 4 + (if Suc n mod 4 \<noteq> 0 then 0 else 1)) = Suc n div 4"
        by presburger
      ultimately show ?thesis using True by (simp add: l'(4) len m)
    next
      case False
      with i(6) show ?thesis by (simp add: l'(4) len m n_def)
    qed
    show "length (awaitingAck (trace s')) = (if legacyAck opts then length (popped (trace s')) mod 4 else 0)"
    proof (cases "legacyAck opts")
      case True
      with i(7) have "length (awaitingAck (trace s)) = n mod 4" by (simp add: n_def)
      moreover have "Suc n mod 4 \<noteq> 0 \<Longrightarrow> Suc (n mod 4) = Suc n mod 4"
        by presburger
      ultimately show ?thesis using True by (simp add: l'(6) len m)
    next
      case False
      then show ?thesis by (simp add: l'(6) m)
    qed
    show "mPageIndexCounter s' < length (mPageAddresses s')"
      using i(8) by (simp add: c)
    show "summaries (trace s') = []"
      by (simp add: l' i(9))
  qed
qed

lemma queueInv_transfer:
  assumes "queueInv opts s"
    and q: "mQueue s' = mQueue s" and pc: "mPushCounter s' = mPushCounter s"
    and rc: "mReadoutCounter s' = mReadoutCounter s" and pa: "mPageAddresses s' = mPageAddresses s"
    and pi: "mPageIndexCounter s' = mPageIndexCounter s" and lg: "logged s' = logged s"
  shows "queueInv opts s'"
proof -
  from lg have l: "pushed (trace s') = pushed (trace s)" "popped (trace s') = popped (trace s)"
    "acknowledged (trace s') = acknowledged (trace s)" "awaitingAck (trace s') = awaitingAck (trace s)"
    "numAcks (trace s') = numAcks (trace s)" "summaries (trace s') = summaries (trace s)"
    by (simp_all add: logged_def acknowledged_def awaitingAck_def)
  note i = queueInvD [OF assms(1)]
  show ?thesis
  proof (intro queueInvI)
    show "length (mQueue s') \<le> NUM_PAGES" using i(1) by (simp only: q)
    show "pushed (trace s') = acknowledged (trace s') @ awaitingAck (trace s') @ mQueue s'"
      using i(2) by (simp only: q l)
    show "popped (trace s') = acknowledged (trace s') @ awaitingAck (trace s')"
      using i(3) by (simp only: l)
    show "mReadoutCounter s' = int (length (popped (trace s')))"
      using i(4) by (simp only: rc l)
    show "mPushCounter s' = int (length (pushed (trace s')))"
      using i(5) by (simp only: pc l)
    show "numAcks (trace s') = (if legacyAck opts then length (popped (trace s')) div 4
                               else length (popped (trace s')))"
      using i(6) by (simp only: l)
    show "length (awaitingAck (trace s')) = (if legacyAck opts then length (popped (trace s')) mod 4 else 0)"
      using i(7) by (simp only: l)
    show "mPageIndexCounter s' < length (mPageAddresses s')"
      using i(8) by (simp only: pa pi)
    show "summaries (trace s') = []"
      using i(9) by (simp only: l)
  qed
qed

lemma reachable_queueInv: "reachable opts s \<Longrightarrow> queueInv opts s"
proof (induction rule: reachable.induct)
  case (r_start fifoAddress pageAddresses u s start)
  show ?case by (rule queueInv_start [OF r_start.hyps])
next
  case (r_push s s')
  show ?case by (rule queueInv_push(1) [OF r_push.IH r_push.hyps(2,3)])
next
  case (r_filled s n)
  show ?case
    by (rule queueInv_transfer [OF r_filled.IH]) (simp_all add: logged_def)
next
  case (r_ready s)
  show ?case
    by (rule queueInv_transfer [OF r_ready.IH]) (simp_all add: logged_def emit_def)
next
  case (r_low s inp)
  from lowPriorityTasks_ctl [of opts inp s]
  have "mQueue (lowPriorityTasks opts inp s) = mQueue s"
    "mPushCounter (lowPriorityTasks opts inp s) = mPushCounter s"
    "mReadoutCounter (lowPriorityTasks opts inp s) = mReadoutCounter s"
    "mPageAddresses (lowPriorityTasks opts inp s) = mPageAddresses s"
    "mPageIndexCounter (lowPriorityTasks opts inp s) = mPageIndexCounter s"
    by (auto simp: ctl_def)
  then show ?case
    by (intro queueInv_transfer [OF r_low.IH]) simp_all
next
  case (r_dma s inp)
  have "mQueue (dmaArrive inp s) = mQueue s" "mPushCounter (dmaArrive inp s) = mPushCounter s"
    "mReadoutCounter (dmaArrive inp s) = mReadoutCounter s"
    "mPageAddresses (dmaArrive inp s) = mPageAddresses s"
    "mPageIndexCounter (dmaArrive inp s) = mPageIndexCounter s"
    using dmaArrive_ctl [of inp s] by (simp_all add: ctl_def)
  then show ?case
    by (intro queueInv_transfer [OF r_dma.IH]) simp_all
next
  case (r_readout s inp s')
  show ?case by (rule queueInv_readout [OF r_readout.IH r_readout.hyps(2,3)])
qed

subsection \<open>filling the queue\<close>

lemma fillLoop_reachable:
  "reachable opts s \<Longrightarrow> fillLoop opts n s = Inr (k, s') \<Longrightarrow> reachable opts s'"
proof (induction opts n s rule: fillLoop.induct)
  case (1 opts pushed s)
  show ?case
  proof (cases "shouldPushQueue opts s")
    case True
    with "1.prems"(2) obtain s1 where pp: "pushPage s = Inr s1"
      and rest: "fillLoop opts (pushed + 1) s1 = Inr (k, s')"
      by (subst (asm) fillLoop.simps) (auto split: sum.splits)
    from "1.prems"(1) True pp have "reachable opts s1" by (rule r_push)
    from "1.IH" [OF True pp this rest] show ?thesis .
  next
    case False
    with "1.prems"(2) have "s' = s"
      by (subst (asm) fillLoop.simps) simp
    with "1.prems"(1) show ?thesis by simp
  qed
qed

lemma fillReadoutQueue_reachable:
  assumes "reachable opts s" "fillReadoutQueue opts s = Inr s'"
  shows "reachable opts s'"
proof -
  from assms(2) obtain k s1 where f: "fillLoop opts 0 s = Inr (k, s1)"
    and s': "s' = (if k \<noteq> 0 then s1\<lparr>mLastFillSize := k\<rparr> else s1)"
    by (auto simp: fillReadoutQueue_def split: sum.splits)
  from fillLoop_reachable [OF assms(1) f] have "reachable opts s1" .
  then show ?thesis
    unfolding s' by (auto intro: r_filled)
qed

lemma fillLoop_idle: "\<not> shouldPushQueue opts s \<Longrightarrow> fillLoop opts n s = Inr (n, s)"
  by (subst fillLoop.simps) simp

lemma fillReadoutQueue_idle: "\<not> shouldPushQueue opts s \<Longrightarrow> fillReadoutQueue opts s = Inr s"
  by (simp add: fillReadoutQueue_def fillLoop_idle)

lemma pushPage_kept: "pushPage s = Inr s' \<Longrightarrow> kept s' = kept s"
  using pushPage_ctl [of s s'] pushPage_counter [of s s']
  by (simp add: kept_def ctl_def)

lemma fillLoop_kept:
  "fillLoop opts n s = Inr (k, s') \<Longrightarrow> kept s' = kept s"
proof (induction opts n s rule: fillLoop.induct)
  case (1 opts pushed s)
  show ?case
  proof (cases "shouldPushQueue opts s")
    case True
    with "1.prems" obtain s1 where pp: "pushPage s = Inr s1"
      and rest: "fillLoop opts (pushed + 1) s1 = Inr (k, s')"
      by (subst (asm) fillLoop.simps) (auto split: sum.splits)
    from "1.IH" [OF True pp rest] pushPage_kept [OF pp] show ?thesis by simp
  next
    case False
    with "1.prems" show ?thesis
      by (subst (asm) fillLoop.simps) simp
  qed
qed

lemma fillLoop_succeeds:
  "mPageIndexCounter s < length (mPageAddresses s)
     \<Longrightarrow> \<exists>k s'. fillLoop opts n s = Inr (k, s') \<and> mPageIndexCounter s' < length (mPageAddresses s')"
proof (induction opts n s rule: fillLoop.induct)
  case (1 opts pushed s)
  show ?case
  proof (cases "shouldPushQueue opts s")
    case True
    from pushPage_succeeds [OF "1.prems"] obtain s1 where pp: "pushPage s = Inr s1" ..
    from "1.prems" have "0 < length (mPageAddresses s)" by auto
    then have "(mPageIndexCounter s + 1) mod length (mPageAddresses s) < length (mPageAddresses s)"
      by simp
    with pushPage_ctl [OF pp] have "mPageIndexCounter s1 < length (mPageAddresses s1)"
      by (simp add: ctl_def)
    from "1.IH" [OF True pp this] obtain k s' where
      "fillLoop opts (pushed + 1) s1 = Inr (k, s')" "mPageIndexCounter s' < length (mPageAddresses s')"
      by blast
    with True pp show ?thesis
      by (subst fillLoop.simps) simp
  next
    case False
    with "1.prems" show ?thesis
      by (subst fillLoop.simps) simp
  qed
qed

lemma fillReadoutQueue_succeeds:
  assumes "mPageIndexCounter s < length (mPageAddresses s)"
  shows "\<exists>s'. fillReadoutQueue opts s = Inr s' \<and> mPageIndexCounter s' < length (mPageAddresses s')
              \<and> kept s' = kept s"
proof -
  from fillLoop_succeeds [OF assms, of opts 0] obtain k s1 where
    f: "fillLoop opts 0 s = Inr (k, s1)" and i: "mPageIndexCounter s1 < length (mPageAddresses s1)"
    by blast
  from fillLoop_kept [OF f] have "kept s1 = kept s" .
  with f i show ?thesis
    by (simp add: fillReadoutQueue_def kept_def)
qed

subsection \<open>the loop\<close>

lemma loopBody_reachable:
  assumes "reachable opts s" "loopBody opts inp s = Inr s'"
  shows "reachable opts s'"
proof -
  from assms(2) obtain s1 where f: "fillReadoutQueue opts (lowPriorityTasks opts inp s) = Inr s1"
    and rest: "(if readoutQueueHasPageAvailable (dmaArrive inp s1)
                then readoutStep opts inp (dmaArrive inp s1) else Inr (dmaArrive inp s1)) = Inr s'"
    by (auto simp: loopBody_def Let_def split: sum.splits)
  have "reachable opts (lowPriorityTasks opts inp s)"
    using assms(1) by (rule r_low)
  then have "reachable opts s1"
    using f by (rule fillReadoutQueue_reachable)
  then have r2: "reachable opts (dmaArrive inp s1)"
    by (rule r_dma)
  show ?thesis
  proof (cases "readoutQueueHasPageAvailable (dmaArrive inp s1)")
    case True
    with rest have "readoutStep opts inp (dmaArrive inp s1) = Inr s'" by simp
    with r2 True show ?thesis by (rule r_readout)
  next
    case False
    with rest r2 show ?thesis by simp
  qed
qed

lemma runLoop_append:
  "runLoop opts (xs @ ys) s =
     (case runLoop opts xs s of Running s' \<Rightarrow> runLoop opts ys s' | r \<Rightarrow> r)"
proof (induction xs arbitrary: s)
  case Nil
  show ?case
    by (cases ys) (simp_all split: option.splits)
next
  case (Cons x xs)
  show ?case
    by (simp add: Cons.IH split: option.splits sum.splits)
qed

lemma runLoop_Running_reachable:
  "reachable opts s \<Longrightarrow> runLoop opts inps s = Running s' \<Longrightarrow> reachable opts s'"
proof (induction inps arbitrary: s)
  case Nil
  then show ?case by (simp split: option.splits)
next
  case (Cons inp inps)
  from Cons.prems(2) obtain s1 where b: "loopBody opts inp s = Inr s1"
    and r: "runLoop opts inps s1 = Running s'"
    by (auto split: option.splits sum.splits)
  from loopBody_reachable [OF Cons.prems(1) b] have "reachable opts s1" .
  from Cons.IH [OF this r] show ?case .
qed

lemma runLoop_Stopped_reachable:
  "reachable opts s \<Longrightarrow> runLoop opts inps s = Stopped r s'
     \<Longrightarrow> \<exists>t. reachable opts t \<and> loopHead opts t = Some r \<and> s' = leaveLoop r t"
proof (induction inps arbitrary: s)
  case Nil
  then show ?case by (auto split: option.splits)
next
  case (Cons inp inps)
  show ?case
  proof (cases "loopHead opts s")
    case None
    with Cons.prems(2) obtain s1 where b: "loopBody opts inp s = Inr s1"
      and r: "runLoop opts inps s1 = Stopped r s'"
      by (auto split: sum.splits)
    from loopBody_reachable [OF Cons.prems(1) b] have "reachable opts s1" .
    from Cons.IH [OF this r] show ?thesis .
  next
    case (Some r')
    with Cons.prems show ?thesis by auto
  qed
qed

lemma runDma_start_reachable:
  assumes "initDma fifo pages (programStart u) = Inr s0"
    and "fillReadoutQueue opts (getStarted opts start s0) = Inr s1"
  shows "reachable opts (emit (EvDataEmulatorEnabled True) s1)"
proof -
  have "reachable opts (getStarted opts start s0)"
    using assms(1) by (rule r_start)
  then have "reachable opts s1"
    using assms(2) by (rule fillReadoutQueue_reachable)
  then show ?thesis by (rule r_ready)
qed

lemma runDma_Running_reachable:
  assumes "initDma fifo pages (programStart u) = Inr s0"
    and "runDma opts start inps fin s0 = Running s"
  shows "reachable opts s"
proof -
  from assms(2) obtain s1 where f: "fillReadoutQueue opts (getStarted opts start s0) = Inr s1"
    and r: "runLoop opts inps (emit (EvDataEmulatorEnabled True) s1) = Running s"
    by (auto simp: runDma_def split: sum.splits outcome.splits)
  from runDma_start_reachable [OF assms(1) f] r show ?thesis
    by (rule runLoop_Running_reachable)
qed

section \<open>Passes of the loop\<close>

lemma reachable_counter: "reachable opts s \<Longrightarrow> mLowPriorityCounter s \<le> LOW_PRIORITY_INTERVAL"
proof (induction rule: reachable.induct)
  case (r_start fifoAddress pageAddresses u s start)
  from start_state(4) [OF r_start.hyps] show ?case by simp
next
  case (r_push s s')
  with pushPage_counter [of s s'] show ?case by simp
next
  case (r_filled s n)
  then show ?case by simp
next
  case (r_ready s)
  then show ?case by (simp add: emit_def)
next
  case (r_low s inp)
  then show ?case by (simp add: lowPriorityTasks_counter)
next
  case (r_dma s inp)
  then show ?case by simp
next
  case (r_readout s inp s')
  with readoutStep_Inr(3) [of opts inp s s'] show ?case by simp
qed

text \<open>
  A pass of the loop after the low priority tasks: it raises only through the validator,
  and leaves the flags and the low priority counter alone.
\<close>

lemma loopBody_succeeds:
  assumes ok: "\<not> checkError opts \<or> recognized opts"
    and idx: "mPageIndexCounter s < length (mPageAddresses s)"
  shows "\<exists>s'. loopBody opts inp s = Inr s'
           \<and> mPageIndexCounter s' < length (mPageAddresses s')
           \<and> mPushEnabled s' = mPushEnabled (lowPriorityTasks opts inp s)
           \<and> mDmaLoopBreak s' = mDmaLoopBreak (lowPriorityTasks opts inp s)
           \<and> mHandlingSigint s' = mHandlingSigint (lowPriorityTasks opts inp s)
           \<and> mLowPriorityCounter s' = mLowPriorityCounter (lowPriorityTasks opts inp s)
           \<and> mReadoutCounter s \<le> mReadoutCounter s'"
proof -
  let ?low = "lowPriorityTasks opts inp s"
  from lowPriorityTasks_ctl [of opts inp s]
  have low: "mPageIndexCounter ?low = mPageIndexCounter s" "mPageAddresses ?low = mPageAddresses s"
    "mReadoutCounter ?low = mReadoutCounter s"
    by (auto simp: ctl_def)
  with idx have "mPageIndexCounter ?low < length (mPageAddresses ?low)" by simp
  from fillReadoutQueue_succeeds [OF this, of opts] obtain s1 where
    f: "fillReadoutQueue opts ?low = Inr s1" and i1: "mPageIndexCounter s1 < length (mPageAddresses s1)"
    and k1: "kept s1 = kept ?low" by blast
  let ?s2 = "dmaArrive inp s1"
  from dmaArrive_ctl [of inp s1] have c2: "mPushEnabled ?s2 = mPushEnabled s1"
    "mDmaLoopBreak ?s2 = mDmaLoopBreak s1" "mHandlingSigint ?s2 = mHandlingSigint s1"
    "mPageAddresses ?s2 = mPageAddresses s1" "mPageIndexCounter ?s2 = mPageIndexCounter s1"
    "mReadoutCounter ?s2 = mReadoutCounter s1"
    by (simp_all add: ctl_def)
  from k1 have k: "mPushEnabled s1 = mPushEnabled ?low" "mDmaLoopBreak s1 = mDmaLoopBreak ?low"
    "mHandlingSigint s1 = mHandlingSigint ?low" "mLowPriorityCounter s1 = mLowPriorityCounter ?low"
    "mReadoutCounter s1 = mReadoutCounter ?low"
    by (simp_all add: kept_def)
  have body: "loopBody opts inp s =
      (if readoutQueueHasPageAvailable ?s2 then readoutStep opts inp ?s2 else Inr ?s2)"
    using f by (simp add: loopBody_def Let_def)
  show ?thesis
  proof (cases "readoutQueueHasPageAvailable ?s2")
    case True
    from readoutStep_succeeds [OF ok, of inp ?s2] obtain s' where rs: "readoutStep opts inp ?s2 = Inr s'" ..
    from readoutStep_Inr(1) [OF rs] have c: "mPushEnabled s' = mPushEnabled ?s2"
      "mDmaLoopBreak s' = mDmaLoopBreak ?s2" "mHandlingSigint s' = mHandlingSigint ?s2"
      "mPageAddresses s' = mPageAddresses ?s2" "mPageIndexCounter s' = mPageIndexCounter ?s2"
      "mReadoutCounter s' = mReadoutCounter ?s2 + 1"
      by (simp_all add: ctl_def)
    from readoutStep_Inr(3) [OF rs] have l: "mLowPriorityCounter s' = mLowPriorityCounter ?s2" .
    show ?thesis
      using True rs i1 by (simp add: body c c2 k l low)
  next
    case False
    then show ?thesis
      using i1 by (simp add: body c2 k low)
  qed
qed

lemma lowPriorityTasks_waiting:
  "mLowPriorityCounter s < LOW_PRIORITY_INTERVAL
     \<Longrightarrow> lowPriorityTasks opts inp s = s\<lparr>mLowPriorityCounter := mLowPriorityCounter s + 1\<rparr>"
  by (simp add: lowPriorityTasks_def)

lemma lowPriorityTasks_thermal:
  "\<not> mLowPriorityCounter s < LOW_PRIORITY_INTERVAL \<Longrightarrow> isMaxExceeded inp
     \<Longrightarrow> lowPriorityTasks opts inp s =
           (emit (EvConsole AbortingMaxTemperature) (s\<lparr>mLowPriorityCounter := 0\<rparr>))\<lparr>mDmaLoopBreak := True\<rparr>"
  by (simp add: lowPriorityTasks_def Let_def)

lemma loopHead_break: "mDmaLoopBreak s \<Longrightarrow> \<exists>r. loopHead opts s = Some r"
  by (simp add: loopHead_def)

lemma loopHead_infinite: "mInfinitePages opts \<Longrightarrow> loopHead opts s = Some r \<Longrightarrow> r = LoopBreak"
  by (auto simp: loopHead_def split: if_splits)

lemma thermal_stop:
  assumes ok: "\<not> checkError opts \<or> recognized opts"
  shows "\<forall>inp\<in>set inps. isMaxExceeded inp \<Longrightarrow> mPageIndexCounter s < length (mPageAddresses s)
     \<Longrightarrow> mLowPriorityCounter s \<le> LOW_PRIORITY_INTERVAL
     \<Longrightarrow> mDmaLoopBreak s \<or> LOW_PRIORITY_INTERVAL < mLowPriorityCounter s + length inps
     \<Longrightarrow> \<exists>r t. runLoop opts inps s = Stopped r (leaveLoop r t) \<and> loopHead opts t = Some r
            \<and> mPushEnabled t = mPushEnabled s \<and> mHandlingSigint t = mHandlingSigint s
            \<and> mReadoutCounter s \<le> mReadoutCounter t"
proof (induction inps arbitrary: s)
  case Nil
  then have "mDmaLoopBreak s" by simp
  from loopHead_break [OF this, of opts] obtain r where "loopHead opts s = Some r" ..
  then show ?case by auto
next
  case (Cons inp inps)
  show ?case
  proof (cases "loopHead opts s")
    case (Some r)
    then show ?thesis by auto
  next
    case None
    then have nb: "\<not> mDmaLoopBreak s"
      by (auto simp: loopHead_def split: if_splits)
    from loopBody_succeeds [OF ok Cons.prems(2), of inp] obtain s1 where
      b: "loopBody opts inp s = Inr s1" and i1: "mPageIndexCounter s1 < length (mPageAddresses s1)"
      and f: "mPushEnabled s1 = mPushEnabled (lowPriorityTasks opts inp s)"
        "mDmaLoopBreak s1 = mDmaLoopBreak (lowPriorityTasks opts inp s)"
        "mHandlingSigint s1 = mHandlingSigint (lowPriorityTasks opts inp s)"
        "mLowPriorityCounter s1 = mLowPriorityCounter (lowPriorityTasks opts inp s)"
      and rc: "mReadoutCounter s \<le> mReadoutCounter s1"
      by blast
    from Cons.prems(1) have hot: "isMaxExceeded inp" "\<forall>inp\<in>set inps. isMaxExceeded inp"
      by simp_all
    have step: "mPushEnabled s1 = mPushEnabled s \<and> mHandlingSigint s1 = mHandlingSigint s
        \<and> mLowPriorityCounter s1 \<le> LOW_PRIORITY_INTERVAL
        \<and> (mDmaLoopBreak s1 \<or> LOW_PRIORITY_INTERVAL < mLowPriorityCounter s1 + length inps)"
    proof (cases "mLowPriorityCounter s < LOW_PRIORITY_INTERVAL")
      case True
      with f Cons.prems(4) nb show ?thesis
        by (simp add: lowPriorityTasks_waiting)
    next
      case False
      with f hot(1) show ?thesis
        by (simp add: lowPriorityTasks_thermal emit_def)
    qed
    from Cons.IH [OF hot(2) i1] step obtain r t where
      "runLoop opts inps s1 = Stopped r (leaveLoop r t)" "loopHead opts t = Some r"
      "mPushEnabled t = mPushEnabled s1" "mHandlingSigint t = mHandlingSigint s1"
      "mReadoutCounter s1 \<le> mReadoutCounter t"
      by blast
    with None b step rc show ?thesis by auto
  qed
qed

section \<open>The queue stays within the ring and acknowledgments keep the push order\<close>

subsection \<open>the example run\<close>

lemma exampleInit: "initDma exampleFifo (examplePages 129) (programStart blankState) = Inr exampleInit"
proof -
  have "NUM_PAGES < length (examplePages 129)"
    by (simp add: examplePages_def NUM_PAGES_def FIFO_ENTRIES_def NUM_OF_BUFFERS_def)
  moreover have "checkAlignment (bus exampleFifo) DMA_ALIGNMENT"
    by (simp add: checkAlignment_def exampleFifo_def DMA_ALIGNMENT_def)
  ultimately obtain s where "initDma exampleFifo (examplePages 129) (programStart blankState) = Inr s"
    using initDma_succeeds by blast
  then show ?thesis by (simp add: exampleInit_def)
qed

lemma exampleStart_reachable: "reachable opts (exampleStart opts)"
  unfolding exampleStart_def using exampleInit by (rule r_start)

lemma exampleStart_ctl:
  "ctl (exampleStart opts) = (([], 0, 0, True, False, False), (\<lambda>i. False), examplePages 129, 0, 0)"
  unfolding exampleStart_def by (rule start_state(1) [OF exampleInit])

lemma exampleStart_logged: "logged (exampleStart opts) = ([], [], ([], []), 0, [])"
  unfolding exampleStart_def by (rule start_state(2) [OF exampleInit])

lemma exampleStart_shouldPush: "mInfinitePages opts \<or> 0 < maxPages opts \<Longrightarrow> shouldPushQueue opts (exampleStart opts)"
  using exampleStart_ctl [of opts]
  by (simp add: shouldPushQueue_def ctl_def NUM_PAGES_def FIFO_ENTRIES_def NUM_OF_BUFFERS_def)

lemma examplePushed: "pushPage (exampleStart opts) = Inr (examplePushed opts)"
proof -
  have "mPageIndexCounter (exampleStart opts) < length (mPageAddresses (exampleStart opts))"
    using exampleStart_ctl [of opts] by (simp add: ctl_def examplePages_def)
  from pushPage_succeeds [OF this] show ?thesis
    by (auto simp: examplePushed_def)
qed

lemma examplePushed_reachable:
  "mInfinitePages opts \<or> 0 < maxPages opts \<Longrightarrow> reachable opts (examplePushed opts)"
  using exampleStart_reachable exampleStart_shouldPush examplePushed by (rule r_push)

lemma examplePushed_ctl:
  "ctl (examplePushed opts) =
     (([exampleHandle], 1, 0, True, False, False), (\<lambda>i. False), examplePages 129, 1, 1)"
  using pushPage_ctl [OF examplePushed, of opts] exampleStart_ctl [of opts]
  by (simp add: ctl_def queuePush_def exampleHandle_def examplePages_def NUM_PAGES_def
      FIFO_ENTRIES_def NUM_OF_BUFFERS_def)

lemma examplePushed_logged: "logged (examplePushed opts) = ([exampleHandle], [], ([], []), 0, [])"
  using pushPage_logged [OF examplePushed, of opts] exampleStart_ctl [of opts] exampleStart_logged [of opts]
  by (simp add: ctl_def logged_def exampleHandle_def)

lemma exampleArrived_reachable:
  "mInfinitePages opts \<or> 0 < maxPages opts \<Longrightarrow> reachable opts (exampleArrived opts)"
  unfolding exampleArrived_def by (rule r_dma) (rule examplePushed_reachable)

lemma exampleArrived_ctl:
  "ctl (exampleArrived opts) =
     (([exampleHandle], 1, 0, True, False, False), (\<lambda>i. i = 0), examplePages 129, 1, 1)"
  using examplePushed_ctl [of opts]
  by (simp add: exampleArrived_def dmaArrive_ctl) (simp add: ctl_def exampleInput_def exampleTransfer_def)

lemma exampleArrived_logged: "logged (exampleArrived opts) = ([exampleHandle], [], ([], []), 0, [])"
  by (simp add: exampleArrived_def examplePushed_logged)

lemma exampleArrived_available: "readoutQueueHasPageAvailable (exampleArrived opts)"
  using exampleArrived_ctl [of opts]
  by (simp add: readoutQueueHasPageAvailable_def isPageArrived_def ctl_def exampleHandle_def)

lemma exampleOptions_simps:
  "maxPages exampleOptions = 5" "\<not> legacyAck exampleOptions" "checkError exampleOptions"
  "recognized exampleOptions" "\<not> mInfinitePages exampleOptions" "verbose exampleOptions"
  "\<not> fileOutputAscii exampleOptions" "\<not> fileOutputBin exampleOptions" "\<not> logIdle exampleOptions"
  "maxPages legacyOptions = 5" "legacyAck legacyOptions" "checkError legacyOptions"
  "recognized legacyOptions" "\<not> mInfinitePages legacyOptions"
  by (simp_all add: exampleOptions_def legacyOptions_def recognized_def mInfinitePages_def)



text \<open>
  C3. In every state of a run the handles pushed so far are, in push order, first the
  acknowledged ones, then the ones read out and not yet acknowledged, then the ones
  still queued. So the acknowledged pages are always a prefix of the pushed pages: a page
  is never acknowledged while one pushed before it is not. A readout step takes the
  front of the queue and only ever extends the acknowledged pages. In the default mode
  no page read out is left without acknowledgment; in the legacy mode they wait for the
  next batch.
\<close>

theorem acknowledgments_in_push_order:
  assumes "reachable opts s"
  shows "pushed (trace s) = acknowledged (trace s) @ awaitingAck (trace s) @ mQueue s \<and>
         prefix (acknowledged (trace s)) (pushed (trace s)) \<and>
         (legacyAck opts \<or> awaitingAck (trace s) = []) \<and>
         (\<forall>inp s'. readoutQueueHasPageAvailable s \<longrightarrow> readoutStep opts inp s = Inr s' \<longrightarrow>
            mQueue s' = tl (mQueue s) \<and>
            popped (trace s') = popped (trace s) @ [hd (mQueue s)] \<and>
            prefix (acknowledged (trace s)) (acknowledged (trace s')) \<and>
            acknowledged (trace s') @ awaitingAck (trace s') =
              acknowledged (trace s) @ awaitingAck (trace s) @ [hd (mQueue s)])"
proof -
  from reachable_queueInv [OF assms] have inv: "queueInv opts s" .
  note i = queueInvD [OF inv]
  have step: "mQueue s' = tl (mQueue s) \<and>
            popped (trace s') = popped (trace s) @ [hd (mQueue s)] \<and>
            prefix (acknowledged (trace s)) (acknowledged (trace s')) \<and>
            acknowledged (trace s') @ awaitingAck (trace s') =
              acknowledged (trace s) @ awaitingAck (trace s) @ [hd (mQueue s)]"
    if "readoutStep opts inp s = Inr s'" for inp s'
    using logged_readoutStep [OF that] readoutStep_Inr(1) [OF that]
    by (simp add: ctl_def)
  have "legacyAck opts \<or> awaitingAck (trace s) = []"
    using i(7) by (cases "legacyAck opts") simp_all
  with i(2) step show ?thesis
    by (simp only: prefix_def) blast
qed

lemma finishUp_effect:
  "numAcks (trace (finishUp opts fin s)) = numAcks (trace s)"
  "awaitingAck (trace (finishUp opts fin s)) = awaitingAck (trace s)"
  "acknowledged (trace (finishUp opts fin s)) = acknowledged (trace s)"
  "summaries (trace (finishUp opts fin s)) = summaries (trace s) @
     [\<lparr>sumPages = mReadoutCounter s,
       sumErrors = (if mReadoutCounter s > 0 then Some (mErrorCount s) else None),
       sumIdle = (if cumulativeIdle opts then Some (mIdleCountCumulative s) else None),
       sumIdleLower = idleCounterLower fin, sumIdleUpper = idleCounterUpper fin,
       sumIdleMax = idleMaxValue fin\<rparr>]"
  "mPushEnabled (finishUp opts fin s) = mPushEnabled s"
  "mHandlingSigint (finishUp opts fin s) = mHandlingSigint s"
  "mReadoutCounter (finishUp opts fin s) = mReadoutCounter s"
  "mPushCounter (finishUp opts fin s) = mPushCounter s"
  "mQueue (finishUp opts fin s) = mQueue s"
  by (simp_all add: finishUp_def outputStats_def outputErrors_def Let_def emit_def
      acknowledged_def awaitingAck_def)

lemma leaveLoop_effect:
  "numAcks (trace (leaveLoop r s)) = numAcks (trace s)"
  "awaitingAck (trace (leaveLoop r s)) = awaitingAck (trace s)"
  "acknowledged (trace (leaveLoop r s)) = acknowledged (trace s)"
  "summaries (trace (leaveLoop r s)) = summaries (trace s)"
  "mPushEnabled (leaveLoop r s) = mPushEnabled s"
  "mHandlingSigint (leaveLoop r s) = mHandlingSigint s"
  "mReadoutCounter (leaveLoop r s) = mReadoutCounter s"
  "mPushCounter (leaveLoop r s) = mPushCounter s"
  "mQueue (leaveLoop r s) = mQueue s"
  "mErrorCount (leaveLoop r s) = mErrorCount s"
  "mIdleCountCumulative (leaveLoop r s) = mIdleCountCumulative s"
  by (cases r; simp add: leaveLoop_def emit_def acknowledged_def awaitingAck_def)+

text \<open>
  C10. In the legacy mode, in every state of a run, the number of acknowledgments sent is
  the readout counter divided by 4 (rounded down), four pages are covered by each, and
  the pages read out since the last acknowledgment, the readout counter modulo 4 of
  them, are unacknowledged. A readout step sends an acknowledgment exactly when the
  counter it has just incremented is divisible by 4. Leaving the loop and finishing the
  run send none, so the last (total mod 4) pages stay unacknowledged.
\<close>

theorem legacy_acknowledges_every_fourth_page:
  assumes "reachable opts s" and "legacyAck opts"
  shows "0 \<le> mReadoutCounter s \<and>
         numAcks (trace s) = nat (mReadoutCounter s) div 4 \<and>
         length (acknowledged (trace s)) = 4 * (nat (mReadoutCounter s) div 4) \<and>
         length (awaitingAck (trace s)) = nat (mReadoutCounter s) mod 4 \<and>
         (\<forall>inp s'. readoutQueueHasPageAvailable s \<longrightarrow> readoutStep opts inp s = Inr s' \<longrightarrow>
            mReadoutCounter s' = mReadoutCounter s + 1 \<and>
            numAcks (trace s') = numAcks (trace s) + (if mReadoutCounter s' mod 4 = 0 then 1 else 0)) \<and>
         (\<forall>r fin. numAcks (trace (finishUp opts fin (leaveLoop r s))) = numAcks (trace s) \<and>
            awaitingAck (trace (finishUp opts fin (leaveLoop r s))) = awaitingAck (trace s))"
proof -
  from reachable_queueInv [OF assms(1)] have inv: "queueInv opts s" .
  note i = queueInvD [OF inv]
  define n where "n = length (popped (trace s))"
  have rc: "mReadoutCounter s = int n"
    by (simp add: i(4) n_def)
  have a: "numAcks (trace s) = n div 4" and w: "length (awaitingAck (trace s)) = n mod 4"
    using i(6,7) assms(2) by (simp_all add: n_def)
  have "length (acknowledged (trace s)) + length (awaitingAck (trace s)) = n"
    using i(3) by (simp add: n_def)
  with w have d: "length (acknowledged (trace s)) = 4 * (n div 4)"
    by presburger
  have step: "mReadoutCounter s' = mReadoutCounter s + 1 \<and>
            numAcks (trace s') = numAcks (trace s) + (if mReadoutCounter s' mod 4 = 0 then 1 else 0)"
    if "readoutStep opts inp s = Inr s'" for inp s'
  proof -
    from readoutStep_Inr(1) [OF that] have "mReadoutCounter s' = mReadoutCounter s + 1"
      by (simp add: ctl_def)
    with logged_readoutStep(4) [OF that] assms(2) show ?thesis by simp
  qed
  show ?thesis
    using step by (simp add: rc a w d finishUp_effect leaveLoop_effect)
qed

text \<open>
  C5. \<open>initFifo\<close> fails with the insufficient-pages error exactly when the partitioning
  has produced at most \<open>NUM_PAGES\<close> pages. The whole run then ends with that error
  whatever inputs the loop would have been given: the loop is never entered, and no
  descriptor has been written, the check coming before the first \<open>setDescriptor\<close>. With
  more than \<open>NUM_PAGES\<close> pages \<open>initFifo\<close> goes on: it marks every status entry not
  arrived and binds page \<open>i\<close> to descriptor \<open>i\<close> for every slot of the ring.
\<close>

theorem initFifo_insufficient_pages:
  "(initFifo fifo pages s = Inl InsufficientPages) = (length pages \<le> NUM_PAGES) \<and>
   ((\<exists>e. initFifo fifo pages s = Inl e) = (length pages \<le> NUM_PAGES)) \<and>
   (length pages \<le> NUM_PAGES \<longrightarrow>
      initDma fifo pages s = Inl InsufficientPages \<and>
      (fileOutputAscii opts \<and> fileOutputBin opts \<or>
       run opts fifo pages start inps fin u = Raised InsufficientPages)) \<and>
   (NUM_PAGES < length pages \<longrightarrow>
      (\<exists>s'. initFifo fifo pages s = Inr s' \<and> mPageAddresses s' = pages \<and> trace s' = trace s \<and>
            (\<forall>i<NUM_PAGES. \<not> statusEntries s' i \<and>
               descriptorEntries s' i =
                 \<lparr>ctrlLength = DMA_PAGE_SIZE_32, srcAddress = (i mod NUM_OF_BUFFERS) * DMA_PAGE_SIZE,
                  dstAddress = bus (pages ! i)\<rparr>)))"
proof -
  have small: "initFifo fifo pages t = Inl InsufficientPages" if "length pages \<le> NUM_PAGES" for t
    using that by (simp add: initFifo_def Let_def)
  have big: "\<exists>s'. initFifo fifo pages s = Inr s' \<and> mPageAddresses s' = pages \<and> trace s' = trace s \<and>
            (\<forall>i<NUM_PAGES. \<not> statusEntries s' i \<and>
               descriptorEntries s' i =
                 \<lparr>ctrlLength = DMA_PAGE_SIZE_32, srcAddress = (i mod NUM_OF_BUFFERS) * DMA_PAGE_SIZE,
                  dstAddress = bus (pages ! i)\<rparr>)"
    if len: "NUM_PAGES < length pages"
  proof -
    let ?s1 = "s\<lparr>mPageAddresses := pages, mFifoAddress := fifo, statusEntries := (\<lambda>i. False)\<rparr>"
    from initFifo_succeeds [OF len, of fifo s] obtain s' where ok: "initFifo fifo pages s = Inr s'" ..
    with len have sd: "setDescriptors [0..<NUM_PAGES] ?s1 = Inr s'"
      by (simp add: initFifo_def Let_def)
    from initFifo_Inr(2) [OF ok] have f: "mPageAddresses s' = pages" "trace s' = trace s"
      "statusEntries s' = (\<lambda>i. False)"
      by auto
    have "descriptorEntries s' i = descriptorFor ?s1 i" if "i < NUM_PAGES" for i
      using setDescriptors_entries [OF sd, of i] that by simp
    then show ?thesis
      using ok f by (simp add: descriptorFor_def)
  qed
  have "initFifo fifo pages s \<noteq> Inl e" if "NUM_PAGES < length pages" for e
    using big [OF that] by auto
  then have iff: "(\<exists>e. initFifo fifo pages s = Inl e) = (length pages \<le> NUM_PAGES)"
    "(initFifo fifo pages s = Inl InsufficientPages) = (length pages \<le> NUM_PAGES)"
    using small [of s] by (auto simp: not_le [symmetric])
  have "initDma fifo pages t = Inl InsufficientPages" if "length pages \<le> NUM_PAGES" for t
    using small [OF that, of t] by (simp add: initDma_def)
  then show ?thesis
    using iff big by (simp add: run_def)
qed

theorem initFifo_insufficient_pages_witness:
  "initFifo exampleFifo (examplePages 128) blankState = Inl InsufficientPages \<and>
   run exampleOptions exampleFifo (examplePages 128) 0 [exampleInput 0] exampleFinal blankState
     = Raised InsufficientPages \<and>
   (\<exists>s'. initFifo exampleFifo (examplePages 129) blankState = Inr s' \<and>
         mPageAddresses s' = examplePages 129)"
proof -
  have a: "length (examplePages 128) \<le> NUM_PAGES" "NUM_PAGES < length (examplePages 129)"
    by (simp_all add: examplePages_def NUM_PAGES_def FIFO_ENTRIES_def NUM_OF_BUFFERS_def)
  from initFifo_insufficient_pages [of exampleFifo "examplePages 128" blankState exampleOptions 0
      "[exampleInput 0]" exampleFinal blankState]
    initFifo_insufficient_pages [of exampleFifo "examplePages 129" blankState exampleOptions 0
      "[exampleInput 0]" exampleFinal blankState] a
  show ?thesis
    by (auto simp: exampleOptions_simps)
qed

text \<open>
  C2, as the program has it. When the front of the queue has arrived and the validator
  does not raise (pattern checking is off or the pattern kind is recognized), the
  readout step does, in this order: write the page to the file sink if one is enabled,
  run the validator if enabled, reset the page to the sentinel value, clear the status
  entry, increment \<open>mReadoutCounter\<close>, send the acknowledgment (in the legacy mode only
  when the incremented counter is divisible by 4), pop the queue. The page reset comes
  before the status clear, both come before the acknowledgment, and the counter is
  incremented before the acknowledgment and the pop. Afterwards the page holds the
  sentinel value in every word and the status entry is clear.
\<close>

theorem readout_step_order:
  assumes "readoutQueueHasPageAvailable s" and "\<not> checkError opts \<or> recognized opts"
  shows "\<exists>s'. readoutStep opts inp s = Inr s' \<and>
           trace s' = trace s @ [EvReadoutPage (hd (mQueue s))]
             @ fileEvents opts (hd (mQueue s)) s
             @ checkEvents opts (hd (mQueue s))
             @ [EvResetPage (pageIndex (hd (mQueue s))),
                EvStatusReset (descriptorIndex (hd (mQueue s))),
                EvReadoutCounter (mReadoutCounter s + 1)]
             @ stepAckEvents opts inp s
             @ [EvPop (hd (mQueue s))] \<and>
           mReadoutCounter s' = mReadoutCounter s + 1 \<and>
           mQueue s' = tl (mQueue s) \<and>
           \<not> statusEntries s' (descriptorIndex (hd (mQueue s))) \<and>
           (\<forall>i<DMA_PAGE_SIZE_32. pageMem s' (pageIndex (hd (mQueue s))) i = BUFFER_DEFAULT_VALUE)"
proof -
  from readoutStep_succeeds [OF assms(2), of inp s] obtain s' where
    rs: "readoutStep opts inp s = Inr s'" ..
  from readoutStep_Inr(1) [OF rs] have "mReadoutCounter s' = mReadoutCounter s + 1"
    "mQueue s' = tl (mQueue s)" "\<not> statusEntries s' (descriptorIndex (hd (mQueue s)))"
    by (simp_all add: ctl_def)
  with rs readoutStep_Inr(2,4) [OF rs] show ?thesis
    by simp
qed

lemma pendingState_available: "readoutQueueHasPageAvailable pendingState"
  by (simp add: pendingState_def readoutQueueHasPageAvailable_def isPageArrived_def
      exampleHandle_def blankState_def)

lemma pendingState_simps:
  "mQueue pendingState = [exampleHandle]" "trace pendingState = []" "mReadoutCounter pendingState = 0"
  by (simp_all add: pendingState_def blankState_def)

theorem readout_step_order_witness:
  "\<exists>s'. readoutStep exampleOptions (exampleInput 0) pendingState = Inr s' \<and>
        trace s' = [EvReadoutPage exampleHandle, EvCheckErrors 0, EvResetPage 0, EvStatusReset 0,
                    EvReadoutCounter 1, EvAcknowledge, EvPop exampleHandle] \<and>
        mReadoutCounter s' = 1 \<and> mQueue s' = []"
  using readout_step_order [OF pendingState_available, of exampleOptions "exampleInput 0"]
  by (auto simp: exampleOptions_simps pendingState_simps fileEvents_def checkEvents_def
      stepAckEvents_def ackEvents_def exampleHandle_def)

text \<open>
  The increment of the readout counter is not the last action of the step: the program
  increments the counter inside \<open>readoutPage\<close>, before the acknowledgment and the pop.
\<close>

theorem readout_counter_incremented_before_ack:
  "map_sum id trace (readoutStep exampleOptions (exampleInput 0) pendingState) =
     Inr [EvReadoutPage exampleHandle, EvCheckErrors 0, EvResetPage 0, EvStatusReset 0,
          EvReadoutCounter 1, EvAcknowledge, EvPop exampleHandle]"
proof -
  from readoutStep_succeeds [of exampleOptions "exampleInput 0" pendingState] obtain s' where
    rs: "readoutStep exampleOptions (exampleInput 0) pendingState = Inr s'"
    by (auto simp: exampleOptions_simps)
  from readoutStep_Inr(2) [OF rs] have "trace s' =
      [EvReadoutPage exampleHandle, EvCheckErrors 0, EvResetPage 0, EvStatusReset 0,
       EvReadoutCounter 1, EvAcknowledge, EvPop exampleHandle]"
    by (simp add: exampleOptions_simps pendingState_simps fileEvents_def checkEvents_def
        stepAckEvents_def ackEvents_def exampleHandle_def)
  with rs show ?thesis by simp
qed

lemma runLoop_thermal:
  assumes ok: "\<not> checkError opts \<or> recognized opts"
    and r: "reachable opts s"
    and hot: "\<forall>inp\<in>set hot. isMaxExceeded inp"
    and len: "LOW_PRIORITY_INTERVAL < mLowPriorityCounter s + length hot"
  shows "\<exists>r t. runLoop opts hot s = Stopped r (leaveLoop r t) \<and> loopHead opts t = Some r
            \<and> mPushEnabled t = mPushEnabled s \<and> mHandlingSigint t = mHandlingSigint s
            \<and> mReadoutCounter s \<le> mReadoutCounter t
            \<and> summaries (trace (leaveLoop r t)) = []"
proof -
  from queueInvD(8) [OF reachable_queueInv [OF r]]
  have idx: "mPageIndexCounter s < length (mPageAddresses s)" .
  from thermal_stop [OF ok hot idx reachable_counter [OF r]] len obtain r' t where
    st: "runLoop opts hot s = Stopped r' (leaveLoop r' t)" and h: "loopHead opts t = Some r'"
    and f: "mPushEnabled t = mPushEnabled s" "mHandlingSigint t = mHandlingSigint s"
      "mReadoutCounter s \<le> mReadoutCounter t"
    by blast
  from runLoop_Stopped_reachable [OF r st] obtain t' where
    t': "reachable opts t'" and eq: "leaveLoop r' t = leaveLoop r' t'"
    by blast
  from queueInvD(9) [OF reachable_queueInv [OF t']]
  have "summaries (trace (leaveLoop r' t')) = []"
    by (simp add: leaveLoop_effect)
  then have "summaries (trace (leaveLoop r' t)) = []"
    by (simp only: eq)
  with st h f show ?thesis by blast
qed

text \<open>
  C8, as the program has it. Take a run that is still going after some passes of the
  loop, and let the temperature monitor report "maximum exceeded" from then on. Provided
  the validator does not raise (pattern checking is off or the pattern kind is
  recognized), the loop stops once the low priority counter has reached its interval and
  one more pass is done, whatever the queue holds and whatever the clock reads; in the
  unlimited mode it stops through the loop break. Pushing is not disabled and the
  interrupt handling is not started on the way. The run then emits exactly one summary,
  and its page count is the readout counter at the moment the loop stopped.
\<close>

theorem thermal_abort_stops_the_loop:
  assumes init: "initDma fifo pages (programStart u) = Inr s0"
    and mid: "runDma opts start before fin s0 = Running s"
    and hot: "\<forall>inp\<in>set hot. isMaxExceeded inp"
    and len: "LOW_PRIORITY_INTERVAL < mLowPriorityCounter s + length hot"
    and ok: "\<not> checkError opts \<or> recognized opts"
  shows "\<exists>r t. runDma opts start (before @ hot) fin s0 = Stopped r (finishUp opts fin (leaveLoop r t))
           \<and> loopHead opts t = Some r \<and> (mInfinitePages opts \<longrightarrow> r = LoopBreak)
           \<and> mPushEnabled t = mPushEnabled s \<and> mHandlingSigint t = mHandlingSigint s
           \<and> mReadoutCounter s \<le> mReadoutCounter t
           \<and> map sumPages (summaries (trace (finishUp opts fin (leaveLoop r t)))) = [mReadoutCounter t]"
proof -
  from mid obtain s1 where f: "fillReadoutQueue opts (getStarted opts start s0) = Inr s1"
    and b: "runLoop opts before (emit (EvDataEmulatorEnabled True) s1) = Running s"
    by (auto simp: runDma_def split: sum.splits outcome.splits)
  from runDma_Running_reachable [OF init mid] have r: "reachable opts s" .
  from runLoop_thermal [OF ok r hot len] obtain r' t where
    st: "runLoop opts hot s = Stopped r' (leaveLoop r' t)" and h: "loopHead opts t = Some r'"
    and k: "mPushEnabled t = mPushEnabled s" "mHandlingSigint t = mHandlingSigint s"
      "mReadoutCounter s \<le> mReadoutCounter t"
    and su: "summaries (trace (leaveLoop r' t)) = []"
    by blast
  have "runDma opts start (before @ hot) fin s0 = Stopped r' (finishUp opts fin (leaveLoop r' t))"
    by (simp add: runDma_def f runLoop_append b st)
  moreover have "map sumPages (summaries (trace (finishUp opts fin (leaveLoop r' t)))) = [mReadoutCounter t]"
    by (simp add: finishUp_effect su leaveLoop_effect(7))
  moreover have "mInfinitePages opts \<longrightarrow> r' = LoopBreak"
    using loopHead_infinite [OF _ h] by blast
  ultimately show ?thesis
    using h k by (intro exI [of _ r'] exI [of _ t]) simp
qed

lemma exampleRunning: "runDma exampleOptions 0 [] exampleFinal exampleInit = Running exampleRunning"
  and exampleRunning_flags: "mPushEnabled exampleRunning" "mLowPriorityCounter exampleRunning = 0"
proof -
  have idx: "mPageIndexCounter (exampleStart exampleOptions)
      < length (mPageAddresses (exampleStart exampleOptions))"
    using exampleStart_ctl [of exampleOptions] by (simp add: ctl_def examplePages_def)
  from fillReadoutQueue_succeeds [OF idx, of exampleOptions] obtain s1 where
    f: "fillReadoutQueue exampleOptions (exampleStart exampleOptions) = Inr s1"
    and k: "kept s1 = kept (exampleStart exampleOptions)" by blast
  from exampleStart_ctl [of exampleOptions] start_state(4) [OF exampleInit, of exampleOptions 0]
  have "kept (exampleStart exampleOptions) = (True, False, False, 0, examplePages 129, (\<lambda>i. False), 0)"
    by (simp add: kept_def ctl_def exampleStart_def)
  with k have k1: "mPushEnabled s1" "\<not> mDmaLoopBreak s1" "mReadoutCounter s1 = 0"
    "mLowPriorityCounter s1 = 0"
    by (simp_all add: kept_def)
  then have "loopHead exampleOptions (emit (EvDataEmulatorEnabled True) s1) = None"
    by (simp add: loopHead_def emit_def exampleOptions_simps)
  with f have run: "runDma exampleOptions 0 [] exampleFinal exampleInit
      = Running (emit (EvDataEmulatorEnabled True) s1)"
    by (simp add: runDma_def exampleStart_def [symmetric])
  then have e: "exampleRunning = emit (EvDataEmulatorEnabled True) s1"
    by (simp add: exampleRunning_def)
  from run e show "runDma exampleOptions 0 [] exampleFinal exampleInit = Running exampleRunning"
    by simp
  show "mPushEnabled exampleRunning" "mLowPriorityCounter exampleRunning = 0"
    unfolding e using k1 by (simp_all add: emit_def)
qed

theorem thermal_abort_stops_the_loop_witness:
  "\<exists>r t. runDma exampleOptions 0 (replicate 10001 hotInput) exampleFinal exampleInit
            = Stopped r (finishUp exampleOptions exampleFinal (leaveLoop r t))
         \<and> loopHead exampleOptions t = Some r \<and> mPushEnabled t
         \<and> map sumPages (summaries (trace (finishUp exampleOptions exampleFinal (leaveLoop r t))))
             = [mReadoutCounter t]"
proof -
  have hot: "\<forall>inp\<in>set (replicate 10001 hotInput). isMaxExceeded inp"
    by (simp add: hotInput_def)
  have len: "LOW_PRIORITY_INTERVAL < mLowPriorityCounter exampleRunning + length (replicate 10001 hotInput)"
    by (simp add: LOW_PRIORITY_INTERVAL_def)
  have ok: "\<not> checkError exampleOptions \<or> recognized exampleOptions"
    by (simp add: exampleOptions_simps)
  from thermal_abort_stops_the_loop [OF exampleInit exampleRunning hot len ok]
  obtain r t where
    "runDma exampleOptions 0 ([] @ replicate 10001 hotInput) exampleFinal exampleInit
       = Stopped r (finishUp exampleOptions exampleFinal (leaveLoop r t))"
    "loopHead exampleOptions t = Some r" "mPushEnabled t = mPushEnabled exampleRunning"
    "map sumPages (summaries (trace (finishUp exampleOptions exampleFinal (leaveLoop r t))))
       = [mReadoutCounter t]"
    by (elim exE conjE) (rule that; assumption)
  with exampleRunning_flags(1) show ?thesis
    by (intro exI [of _ r] exI [of _ t]) simp
qed

subsection \<open>the first fill of a run limited to five pages\<close>

lemma fillLoop_five:
  assumes lim: "maxPages opts = 5" and len: "NUM_PAGES < length pages"
  shows "j \<le> 5 \<Longrightarrow>
     ctl s = ((map handleAt [0..<j], int j, rc, True, lb, hs), st, pages, j, j) \<Longrightarrow>
     \<exists>k s'. fillLoop opts n s = Inr (k, s') \<and>
            ctl s' = ((map handleAt [0..<5], 5, rc, True, lb, hs), st, pages, 5, 5)"
proof (induction "5 - j" arbitrary: j s n)
  case 0
  then have j: "j = 5" by simp
  with "0.prems"(2) lim have "\<not> shouldPushQueue opts s"
    by (simp add: shouldPushQueue_def ctl_def mInfinitePages_def)
  then have "fillLoop opts n s = Inr (n, s)" by (rule fillLoop_idle)
  with "0.prems"(2) j show ?case by simp
next
  case (Suc m)
  then have j: "j < 5" by simp
  have five: "5 < NUM_PAGES"
    by (simp add: NUM_PAGES_def FIFO_ENTRIES_def NUM_OF_BUFFERS_def)
  from Suc.prems(2) have f: "mQueue s = map handleAt [0..<j]" "mPushCounter s = int j"
    "mPushEnabled s" "mPageAddresses s = pages" "mPageIndexCounter s = j" "mDescriptorCounter s = j"
    "mReadoutCounter s = rc" "mDmaLoopBreak s = lb" "mHandlingSigint s = hs" "statusEntries s = st"
    by (simp_all add: ctl_def)
  have sp: "shouldPushQueue opts s"
    using j five lim by (simp add: shouldPushQueue_def f mInfinitePages_def)
  have "mPageIndexCounter s < length (mPageAddresses s)"
    using j five len by (simp add: f)
  from pushPage_succeeds [OF this] obtain s1 where pp: "pushPage s = Inr s1" ..
  have m1: "Suc j mod length pages = Suc j" "Suc j mod NUM_PAGES = Suc j"
    using j five len by simp_all
  from pushPage_ctl [OF pp] have
    "ctl s1 = ((map handleAt [0..<Suc j], int (Suc j), rc, True, lb, hs), st, pages, Suc j, Suc j)"
    using j five by (simp add: f queuePush_def handleAt_def m1)
  moreover have "m = 5 - Suc j" "Suc j \<le> 5"
    using Suc.hyps(2) j by simp_all
  ultimately obtain k s' where
    "fillLoop opts (n + 1) s1 = Inr (k, s')"
    "ctl s' = ((map handleAt [0..<5], 5, rc, True, lb, hs), st, pages, 5, 5)"
    using Suc.hyps(1) [of "Suc j" s1 "n + 1"] by blast
  with sp pp show ?case
    by (subst fillLoop.simps) simp
qed

lemma first_fill_five:
  assumes init: "initDma fifo pages (programStart u) = Inr s0" and lim: "maxPages opts = 5"
  shows "\<exists>s1. fillReadoutQueue opts (getStarted opts start s0) = Inr s1 \<and>
            ctl (emit (EvDataEmulatorEnabled True) s1)
              = ((map handleAt [0..<5], 5, 0, True, False, False), (\<lambda>i. False), pages, 5, 5)"
proof -
  note st = start_state [OF init]
  from fillLoop_five [OF lim st(3), of 0 "getStarted opts start s0" 0 False False "\<lambda>i. False" 0]
    st(1) [of opts start]
  obtain k s' where f: "fillLoop opts 0 (getStarted opts start s0) = Inr (k, s')"
    and c: "ctl s' = ((map handleAt [0..<5], 5, 0, True, False, False), (\<lambda>i. False), pages, 5, 5)"
    by auto
  have "ctl (s'\<lparr>mLastFillSize := k\<rparr>) = ctl s'"
    by (simp add: ctl_def)
  with f c show ?thesis
    by (simp add: fillReadoutQueue_def)
qed

lemma drainInvD:
  assumes "drainInv opts env m s"
  shows "reachable opts s" "mPushCounter s = 5" "0 \<le> mReadoutCounter s" "mReadoutCounter s \<le> 5"
    "mQueue s = map handleAt [nat (mReadoutCounter s)..<5]"
    "mPushEnabled s" "\<not> mDmaLoopBreak s" "\<not> mHandlingSigint s"
    "\<And>d. nat (mReadoutCounter s) \<le> d \<Longrightarrow> d < 5 \<Longrightarrow> \<exists>k<m. d \<in> arrivals (env k) \<Longrightarrow> statusEntries s d"
    "pushed (trace s) = map handleAt [0..<5]"
  using assms unfolding drainInv_def by blast+

lemma drain_pass:
  assumes lim: "maxPages opts = 5" and ok: "\<not> checkError opts \<or> recognized opts"
    and calm: "\<not> isSigInt (env m)" "\<not> isMaxExceeded (env m)"
    and inv: "drainInv opts env m s" and more: "mReadoutCounter s < 5"
  shows "\<exists>s'. loopBody opts (env m) s = Inr s' \<and> drainInv opts env (Suc m) s'
           \<and> mReadoutCounter s \<le> mReadoutCounter s'
           \<and> ((\<forall>d<5. \<exists>k\<le>m. d \<in> arrivals (env k)) \<longrightarrow> mReadoutCounter s' = mReadoutCounter s + 1)"
proof -
  note i = drainInvD [OF inv]
  define r where "r = nat (mReadoutCounter s)"
  have r5: "r < 5" and rc: "mReadoutCounter s = int r"
    using i(3) more by (simp_all add: r_def)
  have q: "mQueue s = handleAt r # map handleAt [Suc r..<5]"
    using r5 by (simp add: i(5) r_def [symmetric] upt_conv_Cons)
  let ?low = "lowPriorityTasks opts (env m) s"
  have cl: "ctl ?low = ctl s"
    using calm by (rule lowPriorityTasks_quiet)
  have rl: "reachable opts ?low"
    using i(1) by (rule r_low)
  from cl have "mPushCounter ?low = 5"
    by (simp add: ctl_def i(2))
  then have "\<not> shouldPushQueue opts ?low"
    by (simp add: shouldPushQueue_def mInfinitePages_def lim)
  then have f: "fillReadoutQueue opts ?low = Inr ?low"
    by (rule fillReadoutQueue_idle)
  let ?s2 = "dmaArrive (env m) ?low"
  have r2: "reachable opts ?s2"
    using rl by (rule r_dma)
  have c2: "ctl ?s2 =
     ((mQueue s, 5, mReadoutCounter s, True, False, False),
      (\<lambda>d. statusEntries s d \<or> d \<in> arrivals (env m)),
      mPageAddresses s, mPageIndexCounter s, mDescriptorCounter s)"
    using cl i(2,6,7,8) by (simp add: dmaArrive_ctl arrivals_def) (simp add: ctl_def)
  then have f2: "mQueue ?s2 = mQueue s" "mPushCounter ?s2 = 5" "mReadoutCounter ?s2 = mReadoutCounter s"
    "mPushEnabled ?s2" "\<not> mDmaLoopBreak ?s2" "\<not> mHandlingSigint ?s2"
    "statusEntries ?s2 = (\<lambda>d. statusEntries s d \<or> d \<in> arrivals (env m))"
    by (simp_all add: ctl_def)
  have "logged ?s2 = logged s" by simp
  then have p2: "pushed (trace ?s2) = map handleAt [0..<5]"
    by (simp add: logged_def i(10))
  have body: "loopBody opts (env m) s =
      (if readoutQueueHasPageAvailable ?s2 then readoutStep opts (env m) ?s2 else Inr ?s2)"
    using f by (simp add: loopBody_def Let_def)
  have av: "readoutQueueHasPageAvailable ?s2 = (statusEntries s r \<or> r \<in> arrivals (env m))"
    by (simp add: readoutQueueHasPageAvailable_def isPageArrived_def f2 q handleAt_def)
  have old: "statusEntries s d \<or> d \<in> arrivals (env m)"
    if "r \<le> d" "d < 5" "\<exists>k<Suc m. d \<in> arrivals (env k)" for d
  proof -
    from that(3) obtain k where k: "k < Suc m" "d \<in> arrivals (env k)" by blast
    show ?thesis
    proof (cases "k = m")
      case True
      with k show ?thesis by simp
    next
      case False
      with k have "k < m" by simp
      with k have "\<exists>k<m. d \<in> arrivals (env k)" by blast
      from i(9) [OF _ that(2) this] that(1) show ?thesis by (simp add: r_def)
    qed
  qed
  show ?thesis
  proof (cases "readoutQueueHasPageAvailable ?s2")
    case True
    from readoutStep_succeeds [OF ok, of "env m" ?s2] obtain s' where
      rs: "readoutStep opts (env m) ?s2 = Inr s'" ..
    have r': "reachable opts s'"
      using r2 True rs by (rule r_readout)
    from readoutStep_Inr(1) [OF rs] have c: "mQueue s' = map handleAt [Suc r..<5]"
      "mPushCounter s' = 5" "mReadoutCounter s' = int (Suc r)" "mPushEnabled s'"
      "\<not> mDmaLoopBreak s'" "\<not> mHandlingSigint s'"
      "statusEntries s' = (\<lambda>d. statusEntries s d \<or> d \<in> arrivals (env m))(r := False)"
      by (simp_all add: ctl_def f2 q rc handleAt_def)
    have n': "nat (mReadoutCounter s') = Suc r"
      by (simp only: c(3) nat_int)
    have "drainInv opts env (Suc m) s'"
      unfolding drainInv_def
    proof (intro conjI allI impI)
      show "reachable opts s'" by (rule r')
      show "mPushCounter s' = 5" by (rule c)
      show "0 \<le> mReadoutCounter s'" by (simp add: c)
      show "mReadoutCounter s' \<le> 5" using r5 by (simp add: c)
      show "mQueue s' = map handleAt [nat (mReadoutCounter s')..<5]" by (simp only: c(1) n')
      show "pushed (trace s') = map handleAt [0..<5]"
        using logged_readoutStep(1) [OF rs] p2 by simp
      show "mPushEnabled s'" by (rule c)
      show "\<not> mDmaLoopBreak s'" by (rule c)
      show "\<not> mHandlingSigint s'" by (rule c)
    next
      fix d
      assume d: "nat (mReadoutCounter s') \<le> d" "d < 5" "\<exists>k<Suc m. d \<in> arrivals (env k)"
      then have "Suc r \<le> d" by (simp only: n')
      with old [of d] d show "statusEntries s' d" by (simp add: c(7))
    qed
    with True rs show ?thesis
      by (simp add: body c rc)
  next
    case False
    have "drainInv opts env (Suc m) ?s2"
      unfolding drainInv_def
    proof (intro conjI allI impI)
      show "reachable opts ?s2" by (rule r2)
      show "mPushCounter ?s2 = 5" by (rule f2)
      show "0 \<le> mReadoutCounter ?s2" using i(3) by (simp add: f2)
      show "mReadoutCounter ?s2 \<le> 5" using i(4) by (simp add: f2)
      show "mQueue ?s2 = map handleAt [nat (mReadoutCounter ?s2)..<5]" by (simp add: f2 i(5))
      show "pushed (trace ?s2) = map handleAt [0..<5]" by (rule p2)
      show "mPushEnabled ?s2" by (rule f2)
      show "\<not> mDmaLoopBreak ?s2" by (rule f2)
      show "\<not> mHandlingSigint ?s2" by (rule f2)
    next
      fix d
      assume d: "nat (mReadoutCounter ?s2) \<le> d" "d < 5" "\<exists>k<Suc m. d \<in> arrivals (env k)"
      then have "r \<le> d" by (simp add: f2 r_def)
      with old [of d] d show "statusEntries ?s2 d" by (simp add: f2)
    qed
    moreover have "\<not> (\<forall>d<5. \<exists>k\<le>m. d \<in> arrivals (env k))"
    proof
      assume "\<forall>d<5. \<exists>k\<le>m. d \<in> arrivals (env k)"
      with r5 have "\<exists>k<Suc m. r \<in> arrivals (env k)" by (auto simp: less_Suc_eq_le)
      from old [OF _ r5 this] False av show False by simp
    qed
    ultimately show ?thesis
      using False by (simp add: body f2)
  qed
qed

lemma drain_start:
  assumes init: "initDma fifo pages (programStart u) = Inr s0" and lim: "maxPages opts = 5"
  shows "\<exists>s1. fillReadoutQueue opts (getStarted opts start s0) = Inr s1 \<and>
            drainInv opts env 0 (emit (EvDataEmulatorEnabled True) s1) \<and>
            mReadoutCounter (emit (EvDataEmulatorEnabled True) s1) = 0"
proof -
  from first_fill_five [OF init lim, of start] obtain s1 where
    f: "fillReadoutQueue opts (getStarted opts start s0) = Inr s1"
    and c: "ctl (emit (EvDataEmulatorEnabled True) s1)
              = ((map handleAt [0..<5], 5, 0, True, False, False), (\<lambda>i. False), pages, 5, 5)"
    by blast
  let ?s = "emit (EvDataEmulatorEnabled True) s1"
  have r: "reachable opts ?s"
    using init f by (rule runDma_start_reachable)
  from c have fs: "mQueue ?s = map handleAt [0..<5]" "mPushCounter ?s = 5" "mReadoutCounter ?s = 0"
    "mPushEnabled ?s" "\<not> mDmaLoopBreak ?s" "\<not> mHandlingSigint ?s"
    by (simp_all add: ctl_def)
  note i = queueInvD [OF reachable_queueInv [OF r]]
  from i(4) fs(3) have "popped (trace ?s) = []" by simp
  with i(3) have "acknowledged (trace ?s) = []" "awaitingAck (trace ?s) = []" by simp_all
  with i(2) fs(1) have p: "pushed (trace ?s) = map handleAt [0..<5]" by simp
  have "drainInv opts env 0 ?s"
    unfolding drainInv_def using r fs p by simp
  with f fs(3) show ?thesis by blast
qed

lemma loopHead_drain:
  assumes lim: "maxPages opts = 5" and inv: "drainInv opts env m s"
  shows "loopHead opts s = (if mReadoutCounter s = 5 then Some PageLimit else None)"
  using drainInvD(4,7) [OF inv] lim by (auto simp: loopHead_def mInfinitePages_def)

lemma drain_runs:
  assumes lim: "maxPages opts = 5" and ok: "\<not> checkError opts \<or> recognized opts"
    and calm: "\<forall>k. \<not> isSigInt (env k) \<and> \<not> isMaxExceeded (env k)"
    and all: "\<forall>d<5. \<exists>k\<le>K. d \<in> arrivals (env k)"
    and start: "drainInv opts env 0 s" "mReadoutCounter s = 0"
  shows "(\<exists>t. runLoop opts (map env [0..<m]) s = Running t \<and> drainInv opts env m t
              \<and> mReadoutCounter t < 5 \<and> int m \<le> mReadoutCounter t + int K)
         \<or> (\<exists>t m'. runLoop opts (map env [0..<m]) s = Stopped PageLimit (leaveLoop PageLimit t)
              \<and> drainInv opts env m' t \<and> mReadoutCounter t = 5)"
proof (induction m)
  case 0
  from loopHead_drain [OF lim start(1)] start(2) have "loopHead opts s = None" by simp
  with start show ?case by simp
next
  case (Suc m)
  have split: "runLoop opts (map env [0..<Suc m]) s =
      (case runLoop opts (map env [0..<m]) s of
         Running t \<Rightarrow> runLoop opts [env m] t | r \<Rightarrow> r)"
    using runLoop_append [of opts "map env [0..<m]" "[env m]" s] by simp
  from Suc.IH show ?case
  proof
    assume "\<exists>t. runLoop opts (map env [0..<m]) s = Running t \<and> drainInv opts env m t
              \<and> mReadoutCounter t < 5 \<and> int m \<le> mReadoutCounter t + int K"
    then obtain t where run: "runLoop opts (map env [0..<m]) s = Running t"
      and inv: "drainInv opts env m t" and more: "mReadoutCounter t < 5"
      and bound: "int m \<le> mReadoutCounter t + int K"
      by blast
    from calm have c: "\<not> isSigInt (env m)" "\<not> isMaxExceeded (env m)" by simp_all
    from drain_pass [OF lim ok c inv more] obtain s' where
      b: "loopBody opts (env m) t = Inr s'" and inv': "drainInv opts env (Suc m) s'"
      and mono: "mReadoutCounter t \<le> mReadoutCounter s'"
      and adv: "(\<forall>d<5. \<exists>k\<le>m. d \<in> arrivals (env k)) \<longrightarrow> mReadoutCounter s' = mReadoutCounter t + 1"
      by blast
    have ht: "loopHead opts t = None"
      using loopHead_drain [OF lim inv] more by simp
    have next_run: "runLoop opts (map env [0..<Suc m]) s = runLoop opts [] s'"
      by (simp only: split run outcome.case runLoop.simps ht option.case b sum.case)
    show ?thesis
    proof (cases "mReadoutCounter s' = 5")
      case True
      with loopHead_drain [OF lim inv'] have "loopHead opts s' = Some PageLimit" by simp
      then have "runLoop opts [] s' = Stopped PageLimit (leaveLoop PageLimit s')" by simp
      with next_run inv' True show ?thesis by auto
    next
      case False
      with loopHead_drain [OF lim inv'] have "loopHead opts s' = None" by simp
      then have run': "runLoop opts [] s' = Running s'" by simp
      from False drainInvD(4) [OF inv'] have less: "mReadoutCounter s' < 5" by simp
      have "int (Suc m) \<le> mReadoutCounter s' + int K"
      proof (cases "K \<le> m")
        case True
        have "\<forall>d<5. \<exists>k\<le>m. d \<in> arrivals (env k)"
        proof (intro allI impI)
          fix d :: nat
          assume "d < 5"
          with all obtain k where "k \<le> K" "d \<in> arrivals (env k)" by blast
          with True show "\<exists>k\<le>m. d \<in> arrivals (env k)" by (intro exI [of _ k]) simp
        qed
        with adv bound show ?thesis by simp
      next
        case False
        with mono drainInvD(3) [OF inv] show ?thesis by simp
      qed
      with next_run run' inv' less show ?thesis by auto
    qed
  next
    assume "\<exists>t m'. runLoop opts (map env [0..<m]) s = Stopped PageLimit (leaveLoop PageLimit t)
              \<and> drainInv opts env m' t \<and> mReadoutCounter t = 5"
    then obtain t m' where st: "runLoop opts (map env [0..<m]) s = Stopped PageLimit (leaveLoop PageLimit t)"
      and inv: "drainInv opts env m' t" "mReadoutCounter t = 5"
      by blast
    have "runLoop opts (map env [0..<Suc m]) s = Stopped PageLimit (leaveLoop PageLimit t)"
      by (simp only: split st outcome.case)
    with inv show ?thesis by blast
  qed
qed

lemma finish_more:
  "pushed (trace (finishUp opts fin (leaveLoop r s))) = pushed (trace s)"
  "mDmaLoopBreak (finishUp opts fin (leaveLoop r s)) = mDmaLoopBreak s"
  by (cases r; simp add: finishUp_def outputStats_def outputErrors_def Let_def leaveLoop_def emit_def)+

text \<open>
  C4, as the program has it. Take a run with a page limit of 5 in which no interrupt and
  no over-temperature is signalled and the validator does not raise (pattern checking is
  off or the pattern kind is recognized), and let the card deliver each of the
  descriptors 0 to 4 in some pass of the loop. Then some number of passes brings the run
  to its end: the loop stops through the page-limit check, five pages have been pushed
  (the handles 0 to 4, all in the first fill) and five read out, the queue is empty, the
  loop break was never set and the interrupt handling never started, and the summary
  reports five pages.
\<close>

theorem page_limit_five_drains:
  assumes init: "initDma fifo pages (programStart u) = Inr s0"
    and lim: "maxPages opts = 5"
    and ok: "\<not> checkError opts \<or> recognized opts"
    and calm: "\<forall>k. \<not> isSigInt (env k) \<and> \<not> isMaxExceeded (env k)"
    and arrive: "\<forall>d<5. \<exists>k. d \<in> arrivals (env k)"
  shows "\<exists>n sf. runDma opts start (map env [0..<n]) fin s0 = Stopped PageLimit sf
           \<and> mPushCounter sf = 5 \<and> pushed (trace sf) = map handleAt [0..<5]
           \<and> mReadoutCounter sf = 5 \<and> mQueue sf = []
           \<and> \<not> mDmaLoopBreak sf \<and> \<not> mHandlingSigint sf
           \<and> map sumPages (summaries (trace sf)) = [5]"
proof -
  from arrive obtain f where f: "\<forall>d<5. d \<in> arrivals (env (f d))"
    by metis
  define K where "K = f 0 + f 1 + f 2 + f 3 + f 4"
  have all: "\<forall>d<5. \<exists>k\<le>K. d \<in> arrivals (env k)"
  proof (intro allI impI)
    fix d :: nat
    assume d: "d < 5"
    then have "d = 0 \<or> d = 1 \<or> d = 2 \<or> d = 3 \<or> d = 4" by arith
    then have "f d \<le> K" by (auto simp: K_def)
    with f d show "\<exists>k\<le>K. d \<in> arrivals (env k)" by blast
  qed
  from drain_start [OF init lim, of start env] obtain s1 where
    fill: "fillReadoutQueue opts (getStarted opts start s0) = Inr s1"
    and inv0: "drainInv opts env 0 (emit (EvDataEmulatorEnabled True) s1)"
    and rc0: "mReadoutCounter (emit (EvDataEmulatorEnabled True) s1) = 0"
    by blast
  let ?sA = "emit (EvDataEmulatorEnabled True) s1"
  from drain_runs [OF lim ok calm all inv0 rc0, of "K + 5"]
  have "\<exists>t m'. runLoop opts (map env [0..<K + 5]) ?sA = Stopped PageLimit (leaveLoop PageLimit t)
              \<and> drainInv opts env m' t \<and> mReadoutCounter t = 5"
    by auto
  then obtain t m' where st: "runLoop opts (map env [0..<K + 5]) ?sA = Stopped PageLimit (leaveLoop PageLimit t)"
    and inv: "drainInv opts env m' t" and rc: "mReadoutCounter t = 5"
    by blast
  note i = drainInvD [OF inv]
  let ?sf = "finishUp opts fin (leaveLoop PageLimit t)"
  have run: "runDma opts start (map env [0..<K + 5]) fin s0 = Stopped PageLimit ?sf"
    by (simp add: runDma_def fill st)
  have "summaries (trace t) = []"
    using queueInvD(9) [OF reachable_queueInv [OF i(1)]] .
  then have "map sumPages (summaries (trace ?sf)) = [5]"
    by (simp add: finishUp_effect leaveLoop_effect rc)
  moreover have "mQueue ?sf = []"
    by (simp add: finishUp_effect leaveLoop_effect i(5) rc)
  ultimately show ?thesis
    using run i(2,7,8,10) rc
    by (intro exI [of _ "K + 5"] exI [of _ ?sf])
       (simp add: finishUp_effect leaveLoop_effect finish_more)
qed

lemma exampleEnv_arrivals: "arrivals (exampleEnv k) = {k}"
  by (simp add: arrivals_def exampleEnv_def exampleInput_def exampleTransfer_def)

theorem page_limit_five_drains_witness:
  "\<exists>n sf. runDma exampleOptions 0 (map exampleEnv [0..<n]) exampleFinal exampleInit
            = Stopped PageLimit sf
         \<and> mPushCounter sf = 5 \<and> mReadoutCounter sf = 5 \<and> mQueue sf = []
         \<and> map sumPages (summaries (trace sf)) = [5]"
proof -
  have calm: "\<forall>k. \<not> isSigInt (exampleEnv k) \<and> \<not> isMaxExceeded (exampleEnv k)"
    by (simp add: exampleEnv_def exampleInput_def)
  have arrive: "\<forall>d<5. \<exists>k. d \<in> arrivals (exampleEnv k)"
    by (simp add: exampleEnv_arrivals)
  have ok: "\<not> checkError exampleOptions \<or> recognized exampleOptions"
    by (simp add: exampleOptions_simps)
  from page_limit_five_drains [OF exampleInit exampleOptions_simps(1) ok calm arrive,
      of 0 exampleFinal]
  obtain n sf where
    "runDma exampleOptions 0 (map exampleEnv [0..<n]) exampleFinal exampleInit = Stopped PageLimit sf"
    "mPushCounter sf = 5" "mReadoutCounter sf = 5" "mQueue sf = []"
    "map sumPages (summaries (trace sf)) = [5]"
    by (elim exE conjE) (rule that; assumption)
  then show ?thesis
    by (intro exI [of _ n] exI [of _ sf]) simp
qed

section \<open>The example run of five pages\<close>

text \<open>
  The run on 129 pages with a page limit of 5: the first fill pushes the handles 0 to 4,
  the card delivers the five pages, and the readout steps take them one by one.
\<close>

lemma exampleFilled:
  assumes lim: "maxPages opts = 5"
  shows "runDma opts 0 inps exampleFinal exampleInit =
           (case runLoop opts inps (exampleFilled opts) of
              Stopped r s2 \<Rightarrow> Stopped r (finishUp opts exampleFinal s2)
            | Raised e \<Rightarrow> Raised e
            | Running s2 \<Rightarrow> Running s2)"
    and "ctl (exampleFilled opts) =
           ((map handleAt [0..<5], 5, 0, True, False, False), (\<lambda>i. False), examplePages 129, 5, 5)"
    and "mLowPriorityCounter (exampleFilled opts) = 0"
    and "reachable opts (exampleFilled opts)"
    and "pushed (trace (exampleFilled opts)) = map handleAt [0..<5]"
    and "loopHead opts (exampleFilled opts) = None"
proof -
  from drain_start [OF exampleInit lim, of 0 exampleEnv] obtain s1 where
    f: "fillReadoutQueue opts (getStarted opts 0 exampleInit) = Inr s1"
    and inv: "drainInv opts exampleEnv 0 (emit (EvDataEmulatorEnabled True) s1)"
    and rc: "mReadoutCounter (emit (EvDataEmulatorEnabled True) s1) = 0"
    by blast
  let ?s = "emit (EvDataEmulatorEnabled True) s1"
  note i = drainInvD [OF inv]
  from first_fill_five [OF exampleInit lim, of 0] f
  have c: "ctl ?s = ((map handleAt [0..<5], 5, 0, True, False, False), (\<lambda>i. False), examplePages 129, 5, 5)"
    by auto
  have idx: "mPageIndexCounter (getStarted opts 0 exampleInit)
      < length (mPageAddresses (getStarted opts 0 exampleInit))"
    using start_state(1) [OF exampleInit, of opts 0] by (simp add: ctl_def examplePages_def)
  from fillReadoutQueue_succeeds [OF idx, of opts] f
  have "kept s1 = kept (getStarted opts 0 exampleInit)" by auto
  with start_state(4) [OF exampleInit, of opts 0] have low: "mLowPriorityCounter ?s = 0"
    by (simp add: kept_def emit_def)
  have h: "loopHead opts ?s = None"
    using loopHead_drain [OF lim inv] rc by simp
  with f have "runDma opts 0 [] exampleFinal exampleInit = Running ?s"
    by (simp add: runDma_def)
  then have e: "exampleFilled opts = ?s"
    by (simp add: exampleFilled_def)
  show "runDma opts 0 inps exampleFinal exampleInit =
           (case runLoop opts inps (exampleFilled opts) of
              Stopped r s2 \<Rightarrow> Stopped r (finishUp opts exampleFinal s2)
            | Raised e \<Rightarrow> Raised e
            | Running s2 \<Rightarrow> Running s2)"
    by (simp only: runDma_def f sum.case e)
  show "ctl (exampleFilled opts) =
           ((map handleAt [0..<5], 5, 0, True, False, False), (\<lambda>i. False), examplePages 129, 5, 5)"
    by (simp only: e c)
  show "mLowPriorityCounter (exampleFilled opts) = 0" by (simp only: e low)
  show "reachable opts (exampleFilled opts)" by (simp only: e i(1))
  show "pushed (trace (exampleFilled opts)) = map handleAt [0..<5]" by (simp only: e i(10))
  show "loopHead opts (exampleFilled opts) = None" by (simp only: e h)
qed

lemma allArrive_arrivals: "dmaDescriptor ` set (transfers allArrive) = {0..<5}"
  by (simp add: allArrive_def image_image exampleTransfer_def)

lemma exampleRead:
  assumes lim: "maxPages opts = 5" and ok: "\<not> checkError opts \<or> recognized opts"
  shows "k \<le> 5 \<Longrightarrow>
     reachable opts (exampleRead opts k) \<and>
     ctl (exampleRead opts k) =
       ((map handleAt [k..<5], 5, int k, True, False, False), (\<lambda>d. k \<le> d \<and> d < 5),
        examplePages 129, 5, 5)"
proof (induction k)
  case 0
  have "reachable opts (exampleRead opts 0)"
    using exampleFilled(4) [OF lim] by (simp add: exampleRead.simps r_dma)
  moreover have "ctl (exampleRead opts 0) =
       ((map handleAt [0..<5], 5, 0, True, False, False), (\<lambda>d. 0 \<le> d \<and> d < 5),
        examplePages 129, 5, 5)"
    using exampleFilled(2) [OF lim]
    by (simp add: exampleRead.simps dmaArrive_ctl allArrive_arrivals) (simp add: ctl_def)
  ultimately show ?case by simp
next
  case (Suc k)
  then have k: "k < 5" and r: "reachable opts (exampleRead opts k)"
    and c: "ctl (exampleRead opts k) =
       ((map handleAt [k..<5], 5, int k, True, False, False), (\<lambda>d. k \<le> d \<and> d < 5),
        examplePages 129, 5, 5)"
    by simp_all
  let ?s = "exampleRead opts k"
  have q: "mQueue ?s = handleAt k # map handleAt [Suc k..<5]"
    using c k by (simp add: ctl_def upt_conv_Cons)
  have st: "statusEntries ?s = (\<lambda>d. k \<le> d \<and> d < 5)"
    using c by (simp add: ctl_def)
  have av: "readoutQueueHasPageAvailable ?s"
    using k by (simp add: readoutQueueHasPageAvailable_def isPageArrived_def q st handleAt_def)
  from readoutStep_succeeds [OF ok, of "exampleInput 0" ?s] obtain s' where
    rs: "readoutStep opts (exampleInput 0) ?s = Inr s'" ..
  then have e: "exampleRead opts (Suc k) = s'" by (simp add: exampleRead.simps)
  have "reachable opts s'"
    using r av rs by (rule r_readout)
  moreover have "(\<lambda>d. k \<le> d \<and> d < 5)(k := False) = (\<lambda>d. Suc k \<le> d \<and> d < 5)"
    by (auto simp: fun_eq_iff)
  with readoutStep_Inr(1) [OF rs] c have "ctl s' =
       ((map handleAt [Suc k..<5], 5, int (Suc k), True, False, False), (\<lambda>d. Suc k \<le> d \<and> d < 5),
        examplePages 129, 5, 5)"
    by (simp add: ctl_def q handleAt_def)
  ultimately show ?case by (simp only: e)
qed

lemma exampleRead_step:
  assumes lim: "maxPages opts = 5" and ok: "\<not> checkError opts \<or> recognized opts" and k: "k < 5"
  shows "readoutStep opts (exampleInput 0) (exampleRead opts k) = Inr (exampleRead opts (Suc k))"
    and "readoutQueueHasPageAvailable (exampleRead opts k)"
proof -
  from readoutStep_succeeds [OF ok, of "exampleInput 0" "exampleRead opts k"]
  show "readoutStep opts (exampleInput 0) (exampleRead opts k) = Inr (exampleRead opts (Suc k))"
    by (auto simp: exampleRead.simps)
  from exampleRead [OF lim ok, of k] k
  have c: "ctl (exampleRead opts k) =
       ((map handleAt [k..<5], 5, int k, True, False, False), (\<lambda>d. k \<le> d \<and> d < 5),
        examplePages 129, 5, 5)"
    by simp
  then have "mQueue (exampleRead opts k) = handleAt k # map handleAt [Suc k..<5]"
    "statusEntries (exampleRead opts k) = (\<lambda>d. k \<le> d \<and> d < 5)"
    using k by (simp_all add: ctl_def upt_conv_Cons)
  then show "readoutQueueHasPageAvailable (exampleRead opts k)"
    using k by (simp add: readoutQueueHasPageAvailable_def isPageArrived_def handleAt_def)
qed

lemma exampleRead_fields:
  assumes lim: "maxPages opts = 5" and ok: "\<not> checkError opts \<or> recognized opts" and k: "k \<le> 5"
  shows "reachable opts (exampleRead opts k)"
    and "mQueue (exampleRead opts k) = map handleAt [k..<5]"
    and "mReadoutCounter (exampleRead opts k) = int k"
  using exampleRead [OF lim ok k] by (simp_all add: ctl_def)

lemma exampleRead_pushed:
  assumes lim: "maxPages opts = 5"
  shows "pushed (trace (exampleRead opts 0)) = map handleAt [0..<5]"
proof -
  have "logged (exampleRead opts 0) = logged (exampleFilled opts)" by (simp add: exampleRead.simps)
  then show ?thesis
    using exampleFilled(5) [OF lim] by (simp add: logged_def)
qed

text \<open>
  In the default mode the first two readout steps acknowledge handle 0 and then handle 1,
  the order in which they were pushed, and leave the handles 2 to 4 queued.
\<close>

theorem acknowledgments_in_push_order_witness:
  "pushed (trace (exampleRead exampleOptions 0)) = map handleAt [0..<5] \<and>
   mQueue (exampleRead exampleOptions 0) = map handleAt [0..<5] \<and>
   acknowledged (trace (exampleRead exampleOptions 0)) = [] \<and>
   readoutStep exampleOptions (exampleInput 0) (exampleRead exampleOptions 0)
     = Inr (exampleRead exampleOptions 1) \<and>
   acknowledged (trace (exampleRead exampleOptions 1)) = [\<lparr>descriptorIndex = 0, pageIndex = 0\<rparr>] \<and>
   readoutStep exampleOptions (exampleInput 0) (exampleRead exampleOptions 1)
     = Inr (exampleRead exampleOptions 2) \<and>
   acknowledged (trace (exampleRead exampleOptions 2))
     = [\<lparr>descriptorIndex = 0, pageIndex = 0\<rparr>, \<lparr>descriptorIndex = 1, pageIndex = 1\<rparr>] \<and>
   mQueue (exampleRead exampleOptions 2) = map handleAt [2..<5]"
proof -
  note lim = exampleOptions_simps(1)
  have ok: "\<not> checkError exampleOptions \<or> recognized exampleOptions"
    by (simp add: exampleOptions_simps)
  let ?s0 = "exampleRead exampleOptions 0"
  let ?s1 = "exampleRead exampleOptions (Suc 0)"
  let ?s2 = "exampleRead exampleOptions (Suc (Suc 0))"
  have r: "reachable exampleOptions ?s0" "reachable exampleOptions ?s1" "reachable exampleOptions ?s2"
    by (rule exampleRead_fields(1) [OF lim ok], simp)+
  have q: "mQueue ?s0 = map handleAt [0..<5]" "mQueue ?s1 = map handleAt [Suc 0..<5]"
    "mQueue ?s2 = map handleAt [Suc (Suc 0)..<5]"
    by (rule exampleRead_fields(2) [OF lim ok], simp)+
  have st: "readoutStep exampleOptions (exampleInput 0) ?s0 = Inr ?s1"
    "readoutStep exampleOptions (exampleInput 0) ?s1 = Inr ?s2"
    by (rule exampleRead_step(1) [OF lim ok], simp)+
  have av: "readoutQueueHasPageAvailable ?s0" "readoutQueueHasPageAvailable ?s1"
    by (rule exampleRead_step(2) [OF lim ok], simp)+
  note p0 = exampleRead_pushed [OF lim]
  from acknowledgments_in_push_order [OF r(1)]
  have "pushed (trace ?s0) = acknowledged (trace ?s0) @ awaitingAck (trace ?s0) @ mQueue ?s0"
    by blast
  with p0 q(1) have a0: "acknowledged (trace ?s0) = []" "awaitingAck (trace ?s0) = []"
    by simp_all
  from acknowledgments_in_push_order [OF r(1)] av(1) st(1)
  have "acknowledged (trace ?s1) @ awaitingAck (trace ?s1) =
      acknowledged (trace ?s0) @ awaitingAck (trace ?s0) @ [hd (mQueue ?s0)]"
    by blast
  moreover from acknowledgments_in_push_order [OF r(2)] have w1: "awaitingAck (trace ?s1) = []"
    by (simp add: exampleOptions_simps)
  ultimately have a1: "acknowledged (trace ?s1) = [handleAt 0]"
    by (simp add: a0 q(1) upt_conv_Cons)
  from acknowledgments_in_push_order [OF r(2)] av(2) st(2)
  have "acknowledged (trace ?s2) @ awaitingAck (trace ?s2) =
      acknowledged (trace ?s1) @ awaitingAck (trace ?s1) @ [hd (mQueue ?s1)]"
    by blast
  moreover from acknowledgments_in_push_order [OF r(3)] have "awaitingAck (trace ?s2) = []"
    by (simp add: exampleOptions_simps)
  ultimately have a2: "acknowledged (trace ?s2) = [handleAt 0, handleAt 1]"
    by (simp add: a1 w1 q(2) upt_conv_Cons)
  have n: "exampleRead exampleOptions 1 = ?s1" "exampleRead exampleOptions 2 = ?s2"
    by (simp_all only: One_nat_def numeral_2_eq_2)
  have m: "map handleAt [2..<5] = map handleAt [Suc (Suc 0)..<5]"
    by (simp only: numeral_2_eq_2)
  from p0 q a0 a1 a2 st show ?thesis
    by (simp only: n m) (simp add: handleAt_def)
qed

text \<open>
  In the legacy mode the first three pages are read out without any acknowledgment; the
  fourth readout step sends the first one, which covers the four pages; the fifth page
  is read out without acknowledgment and is still unacknowledged when the run has
  finished.
\<close>

theorem legacy_acknowledges_every_fourth_page_witness:
  "mReadoutCounter (exampleRead legacyOptions 3) = 3 \<and>
   numAcks (trace (exampleRead legacyOptions 3)) = 0 \<and>
   length (awaitingAck (trace (exampleRead legacyOptions 3))) = 3 \<and>
   readoutStep legacyOptions (exampleInput 0) (exampleRead legacyOptions 3)
     = Inr (exampleRead legacyOptions 4) \<and>
   mReadoutCounter (exampleRead legacyOptions 4) = 4 \<and>
   numAcks (trace (exampleRead legacyOptions 4)) = 1 \<and>
   length (acknowledged (trace (exampleRead legacyOptions 4))) = 4 \<and>
   awaitingAck (trace (exampleRead legacyOptions 4)) = [] \<and>
   readoutStep legacyOptions (exampleInput 0) (exampleRead legacyOptions 4)
     = Inr (exampleRead legacyOptions 5) \<and>
   mReadoutCounter (exampleRead legacyOptions 5) = 5 \<and>
   numAcks (trace (exampleRead legacyOptions 5)) = 1 \<and>
   length (acknowledged (trace (exampleRead legacyOptions 5))) = 4 \<and>
   length (awaitingAck (trace (exampleRead legacyOptions 5))) = 1 \<and>
   numAcks (trace (finishUp legacyOptions exampleFinal
     (leaveLoop PageLimit (exampleRead legacyOptions 5)))) = 1 \<and>
   length (awaitingAck (trace (finishUp legacyOptions exampleFinal
     (leaveLoop PageLimit (exampleRead legacyOptions 5))))) = 1"
proof -
  note lim = exampleOptions_simps(10)
  have ok: "\<not> checkError legacyOptions \<or> recognized legacyOptions"
    by (simp add: exampleOptions_simps)
  note leg = exampleOptions_simps(11)
  let ?s3 = "exampleRead legacyOptions 3"
  let ?s4 = "exampleRead legacyOptions 4"
  let ?s5 = "exampleRead legacyOptions 5"
  have r: "reachable legacyOptions ?s3" "reachable legacyOptions ?s4" "reachable legacyOptions ?s5"
    by (rule exampleRead_fields(1) [OF lim ok], simp)+
  have c: "mReadoutCounter ?s3 = 3" "mReadoutCounter ?s4 = 4" "mReadoutCounter ?s5 = 5"
    using exampleRead_fields(3) [OF lim ok, of 3] exampleRead_fields(3) [OF lim ok, of 4]
      exampleRead_fields(3) [OF lim ok, of 5]
    by simp_all
  have st: "readoutStep legacyOptions (exampleInput 0) ?s3 = Inr ?s4"
    "readoutStep legacyOptions (exampleInput 0) ?s4 = Inr ?s5"
    using exampleRead_step(1) [OF lim ok, of 3] exampleRead_step(1) [OF lim ok, of 4]
    by simp_all
  have av: "readoutQueueHasPageAvailable ?s3"
    by (rule exampleRead_step(2) [OF lim ok]) simp
  note t3 = legacy_acknowledges_every_fourth_page [OF r(1) leg]
  note t4 = legacy_acknowledges_every_fourth_page [OF r(2) leg]
  note t5 = legacy_acknowledges_every_fourth_page [OF r(3) leg]
  from t3 have a3: "numAcks (trace ?s3) = 0" "length (awaitingAck (trace ?s3)) = 3"
    by (simp_all add: c)
  from t3 av st(1) have "numAcks (trace ?s4) =
      numAcks (trace ?s3) + (if mReadoutCounter ?s4 mod 4 = 0 then 1 else 0)"
    by blast
  then have a4: "numAcks (trace ?s4) = 1"
    by (simp add: a3 c)
  from t4 have b4: "length (acknowledged (trace ?s4)) = 4" "awaitingAck (trace ?s4) = []"
    by (simp_all add: c)
  from t5 have a5: "numAcks (trace ?s5) = 1" "length (acknowledged (trace ?s5)) = 4"
    "length (awaitingAck (trace ?s5)) = 1"
    by (simp_all add: c)
  from t5 have f5: "numAcks (trace (finishUp legacyOptions exampleFinal (leaveLoop PageLimit ?s5)))
      = numAcks (trace ?s5)"
    "awaitingAck (trace (finishUp legacyOptions exampleFinal (leaveLoop PageLimit ?s5)))
      = awaitingAck (trace ?s5)"
    by blast+
  from c st a3 a4 b4 a5 show ?thesis
    by (simp only: f5)
qed

section \<open>Runs that do not reach the page limit\<close>

text \<open>
  With a pattern kind the validator does not know, the first page read out ends the run
  with an exception. While nothing arrives the loop only counts its passes, and at the
  next low priority check an over-temperature, or an interrupt whose timeout has elapsed
  with pages still queued, sets the loop break.
\<close>

lemma readoutStep_raises:
  assumes "checkError opts" "generatorPattern opts = Random"
  shows "readoutStep opts inp s = Inl (UnrecognizedGeneratorPattern Random)"
  using assms
  by (simp add: readoutStep_def readoutPage_def dataErrorChecking_def checkErrors_def Let_def)

lemma randomOptions_simps:
  "maxPages randomOptions = 5" "checkError randomOptions" "generatorPattern randomOptions = Random"
  "\<not> recognized randomOptions"
  by (simp_all add: randomOptions_def exampleOptions_def recognized_def)

lemma filled_waits:
  assumes lim: "maxPages opts = 5"
  shows "\<not> shouldPushQueue opts (exampleFilled opts)"
    and "\<not> readoutQueueHasPageAvailable (exampleFilled opts)"
  using exampleFilled(2) [OF lim] lim
  by (simp_all add: shouldPushQueue_def readoutQueueHasPageAvailable_def isPageArrived_def ctl_def
      mInfinitePages_def)

lemma random_pass_raises:
  assumes "0 \<in> arrivals inp"
  shows "runLoop randomOptions (inp # rest) (exampleFilled randomOptions)
           = Raised (UnrecognizedGeneratorPattern Random)"
proof -
  note lim = randomOptions_simps(1)
  let ?s = "exampleFilled randomOptions"
  let ?s1 = "?s\<lparr>mLowPriorityCounter := mLowPriorityCounter ?s + 1\<rparr>"
  have low: "lowPriorityTasks randomOptions inp ?s = ?s1"
    by (rule lowPriorityTasks_waiting) (simp add: exampleFilled(3) [OF lim] LOW_PRIORITY_INTERVAL_def)
  have "\<not> shouldPushQueue randomOptions ?s1"
    using filled_waits(1) [OF lim] by (simp add: shouldPushQueue_def)
  then have f: "fillReadoutQueue randomOptions ?s1 = Inr ?s1"
    by (rule fillReadoutQueue_idle)
  have "ctl ?s1 = ctl ?s" by (simp add: ctl_def)
  with exampleFilled(2) [OF lim] have "mQueue (dmaArrive inp ?s1) = map handleAt [0..<5]"
    "statusEntries (dmaArrive inp ?s1) 0"
    using assms dmaArrive_ctl [of inp ?s1] by (simp_all add: ctl_def arrivals_def)
  then have "readoutQueueHasPageAvailable (dmaArrive inp ?s1)"
    by (simp add: readoutQueueHasPageAvailable_def isPageArrived_def upt_conv_Cons handleAt_def)
  then have "loopBody randomOptions inp ?s = readoutStep randomOptions inp (dmaArrive inp ?s1)"
    by (simp only: loopBody_def low f sum.case Let_def if_True)
  then have "loopBody randomOptions inp ?s = Inl (UnrecognizedGeneratorPattern Random)"
    by (simp only: readoutStep_raises [OF randomOptions_simps(2,3)])
  then show ?thesis
    by (simp add: exampleFilled(6) [OF lim])
qed

lemma idle_passes:
  assumes "transfers inp = []"
    and "\<not> shouldPushQueue opts s" "\<not> readoutQueueHasPageAvailable s" "loopHead opts s = None"
    and "mLowPriorityCounter s + n \<le> LOW_PRIORITY_INTERVAL"
  shows "runLoop opts (replicate n inp @ rest) s
           = runLoop opts rest (s\<lparr>mLowPriorityCounter := mLowPriorityCounter s + n\<rparr>)"
  using assms(2-)
proof (induction n arbitrary: s)
  case 0
  then show ?case by simp
next
  case (Suc n)
  let ?s1 = "s\<lparr>mLowPriorityCounter := mLowPriorityCounter s + 1\<rparr>"
  have low: "lowPriorityTasks opts inp s = ?s1"
    using Suc.prems(4) by (intro lowPriorityTasks_waiting) simp
  have np: "\<not> shouldPushQueue opts ?s1"
    using Suc.prems(1) by (simp add: shouldPushQueue_def)
  then have f: "fillReadoutQueue opts ?s1 = Inr ?s1"
    by (rule fillReadoutQueue_idle)
  have d: "dmaArrive inp ?s1 = ?s1"
    by (simp add: dmaArrive_def assms(1))
  have na: "\<not> readoutQueueHasPageAvailable ?s1"
    using Suc.prems(2) by (simp add: readoutQueueHasPageAvailable_def isPageArrived_def)
  have "loopHead opts ?s1 = loopHead opts s"
    by (simp add: loopHead_def)
  with Suc.prems(3) have h: "loopHead opts ?s1 = None"
    by simp
  have body: "loopBody opts inp s = Inr ?s1"
    using na by (simp only: loopBody_def low f sum.case Let_def d if_False)
  have "mLowPriorityCounter ?s1 + n \<le> LOW_PRIORITY_INTERVAL"
    using Suc.prems(4) by simp
  from Suc.IH [OF np na h this]
  have "runLoop opts (replicate n inp @ rest) ?s1
           = runLoop opts rest (s\<lparr>mLowPriorityCounter := mLowPriorityCounter s + Suc n\<rparr>)"
    by simp
  then show ?case
    by (simp add: Suc.prems(3) body)
qed

lemma runLoop_at_stop: "loopHead opts s = Some r \<Longrightarrow> runLoop opts inps s = Stopped r (leaveLoop r s)"
  by (cases inps) simp_all

text \<open>
  The states in which the example run waits for its five pages: the handles 0 to 4
  queued, five pages pushed and none read out, nothing delivered, the loop break not
  set.
\<close>

lemma waiting_pass:
  assumes quiet: "transfers inp = []"
    and s: "ctl s = ((map handleAt [0..<5], 5, 0, pe, False, hs), (\<lambda>i. False), pages, 5, 5)"
    and t: "ctl (lowPriorityTasks exampleOptions inp s)
              = ((map handleAt [0..<5], 5, 0, pe', lb, hs'), (\<lambda>i. False), pages, 5, 5)"
  shows "runLoop exampleOptions (inp # rest) s
           = runLoop exampleOptions rest (lowPriorityTasks exampleOptions inp s)"
proof -
  let ?t = "lowPriorityTasks exampleOptions inp s"
  from s have h: "loopHead exampleOptions s = None"
    by (simp add: loopHead_def ctl_def exampleOptions_simps)
  from t have "\<not> shouldPushQueue exampleOptions ?t"
    by (simp add: shouldPushQueue_def ctl_def exampleOptions_simps)
  then have f: "fillReadoutQueue exampleOptions ?t = Inr ?t"
    by (rule fillReadoutQueue_idle)
  have d: "dmaArrive inp ?t = ?t"
    by (simp add: dmaArrive_def quiet)
  from t have na: "\<not> readoutQueueHasPageAvailable ?t"
    by (simp add: readoutQueueHasPageAvailable_def isPageArrived_def ctl_def)
  have "loopBody exampleOptions inp s = Inr ?t"
    using na by (simp only: loopBody_def f sum.case Let_def d if_False)
  with h show ?thesis by simp
qed

lemma waiting_passes:
  assumes quiet: "transfers inp = []"
    and s: "ctl s = ((map handleAt [0..<5], 5, 0, pe, False, hs), (\<lambda>i. False), pages, 5, 5)"
    and low: "mLowPriorityCounter s = 0"
  shows "runLoop exampleOptions (replicate LOW_PRIORITY_INTERVAL inp @ rest) s
           = runLoop exampleOptions rest (s\<lparr>mLowPriorityCounter := LOW_PRIORITY_INTERVAL\<rparr>)"
proof -
  from s have "\<not> shouldPushQueue exampleOptions s" "\<not> readoutQueueHasPageAvailable s"
    "loopHead exampleOptions s = None"
    by (simp_all add: shouldPushQueue_def readoutQueueHasPageAvailable_def isPageArrived_def
        loopHead_def ctl_def exampleOptions_simps)
  from idle_passes [OF quiet this, of LOW_PRIORITY_INTERVAL rest] low show ?thesis
    by simp
qed

lemma overheat_break:
  "runDma exampleOptions 0 (replicate LOW_PRIORITY_INTERVAL idleInput @ [overheatInput] @ rest)
     exampleFinal exampleInit
   = Stopped LoopBreak (finishUp exampleOptions exampleFinal
       ((emit (EvConsole AbortingMaxTemperature)
          ((exampleFilled exampleOptions)\<lparr>mLowPriorityCounter := 0\<rparr>))\<lparr>mDmaLoopBreak := True\<rparr>))"
proof -
  note lim = exampleOptions_simps(1)
  note c = exampleFilled(2) [OF lim]
  let ?s = "exampleFilled exampleOptions"
  let ?s' = "?s\<lparr>mLowPriorityCounter := LOW_PRIORITY_INTERVAL\<rparr>"
  let ?t = "(emit (EvConsole AbortingMaxTemperature) (?s\<lparr>mLowPriorityCounter := 0\<rparr>))
              \<lparr>mDmaLoopBreak := True\<rparr>"
  have q: "transfers idleInput = []" "transfers overheatInput = []"
    by (simp_all add: overheatInput_def idleInput_def)
  have one: "runLoop exampleOptions
        (replicate LOW_PRIORITY_INTERVAL idleInput @ overheatInput # rest) ?s
      = runLoop exampleOptions (overheatInput # rest) ?s'"
    using q(1) c exampleFilled(3) [OF lim] by (rule waiting_passes)
  have c': "ctl ?s' = ((map handleAt [0..<5], 5, 0, True, False, False), (\<lambda>i. False),
      examplePages 129, 5, 5)"
    using c by (simp add: ctl_def)
  have low: "lowPriorityTasks exampleOptions overheatInput ?s' = ?t"
    by (simp add: lowPriorityTasks_thermal overheatInput_def)
  have ct: "ctl ?t = ((map handleAt [0..<5], 5, 0, True, True, False), (\<lambda>i. False),
      examplePages 129, 5, 5)"
    using c by (simp add: ctl_def emit_def)
  have two: "runLoop exampleOptions (overheatInput # rest) ?s' = runLoop exampleOptions rest ?t"
    using waiting_pass [OF q(2) c', of True True False rest] ct by (simp only: low)
  from ct have "loopHead exampleOptions ?t = Some LoopBreak"
    by (simp add: loopHead_def ctl_def exampleOptions_simps)
  then have "runLoop exampleOptions rest ?t = Stopped LoopBreak ?t"
    by (simp add: runLoop_at_stop leaveLoop_def)
  then have "runLoop exampleOptions
        (replicate LOW_PRIORITY_INTERVAL idleInput @ overheatInput # rest) ?s
      = Stopped LoopBreak ?t"
    by (simp only: one two)
  then show ?thesis
    by (simp only: exampleFilled(1) [OF lim] append_Cons append_Nil outcome.case)
qed

lemma interrupt_start_kept:
  "mHandlingSigintStart (randomPauseFirmTask opts inp
      (randomPauseSoftTask opts inp (statusDisplayTask opts inp s))) = mHandlingSigintStart s"
  "mLowPriorityCounter (randomPauseFirmTask opts inp
      (randomPauseSoftTask opts inp (statusDisplayTask opts inp s))) = mLowPriorityCounter s"
  by (simp_all add: randomPauseFirmTask_def randomPauseSoftTask_def statusDisplayTask_def
      isStatusDisplayInterval_def Let_def emit_def)

lemma interrupt_break:
  "\<exists>t. runDma exampleOptions 0
          (replicate LOW_PRIORITY_INTERVAL idleInput @ [interruptInput]
           @ replicate LOW_PRIORITY_INTERVAL interruptInput @ [timeoutInput] @ rest)
          exampleFinal exampleInit
        = Stopped LoopBreak (finishUp exampleOptions exampleFinal t)
      \<and> ctl t = ((map handleAt [0..<5], 5, 0, False, True, True), (\<lambda>i. False),
                 examplePages 129, 5, 5)
      \<and> last (trace t) = EvConsole InterruptedNotFinished"
proof -
  note lim = exampleOptions_simps(1)
  note c = exampleFilled(2) [OF lim]
  let ?s = "exampleFilled exampleOptions"
  let ?s' = "?s\<lparr>mLowPriorityCounter := LOW_PRIORITY_INTERVAL\<rparr>"
  define t1 where "t1 = lowPriorityTasks exampleOptions interruptInput ?s'"
  let ?t1' = "t1\<lparr>mLowPriorityCounter := LOW_PRIORITY_INTERVAL\<rparr>"
  define t2 where "t2 = lowPriorityTasks exampleOptions timeoutInput ?t1'"
  let ?tail = "replicate LOW_PRIORITY_INTERVAL interruptInput @ timeoutInput # rest"
  have q: "transfers idleInput = []" "transfers interruptInput = []" "transfers timeoutInput = []"
    by (simp_all add: timeoutInput_def interruptInput_def idleInput_def)
  have one: "runLoop exampleOptions
        (replicate LOW_PRIORITY_INTERVAL idleInput @ interruptInput # ?tail) ?s
      = runLoop exampleOptions (interruptInput # ?tail) ?s'"
    using q(1) c exampleFilled(3) [OF lim] by (rule waiting_passes)
  have c': "ctl ?s' = ((map handleAt [0..<5], 5, 0, True, False, False), (\<lambda>i. False),
      examplePages 129, 5, 5)"
    using c by (simp add: ctl_def)
  from c have f: "\<not> mHandlingSigint ?s" "mQueue ?s \<noteq> []"
    by (simp_all add: ctl_def)
  have e1: "t1 = randomPauseFirmTask exampleOptions interruptInput
      (randomPauseSoftTask exampleOptions interruptInput (statusDisplayTask exampleOptions interruptInput
        (?s\<lparr>mLowPriorityCounter := 0, mHandlingSigintStart := 0, mHandlingSigint := True,
             mPushEnabled := False\<rparr>)))"
    using f unfolding t1_def
    by (simp add: lowPriorityTasks_def Let_def interruptInput_def idleInput_def exampleInput_def
        HANDLING_SIGINT_TIMEOUT_def milliseconds_def)
  have c1: "ctl t1 = ((map handleAt [0..<5], 5, 0, False, False, True), (\<lambda>i. False),
      examplePages 129, 5, 5)"
    using c by (simp add: e1) (simp add: ctl_def)
  have k1: "mHandlingSigintStart t1 = 0" "mLowPriorityCounter t1 = 0"
    by (simp_all add: e1 interrupt_start_kept)
  have two: "runLoop exampleOptions (interruptInput # ?tail) ?s' = runLoop exampleOptions ?tail t1"
    using waiting_pass [OF q(2) c', of False False True ?tail] c1 by (simp only: t1_def)
  have three: "runLoop exampleOptions ?tail t1 = runLoop exampleOptions (timeoutInput # rest) ?t1'"
    using q(2) c1 k1(2) by (rule waiting_passes)
  have c1': "ctl ?t1' = ((map handleAt [0..<5], 5, 0, False, False, True), (\<lambda>i. False),
      examplePages 129, 5, 5)"
    using c1 by (simp add: ctl_def)
  from c1 have f1: "mHandlingSigint t1" "mQueue t1 \<noteq> []"
    by (simp_all add: ctl_def)
  have e2: "t2 = (emit (EvConsole InterruptedNotFinished) (t1\<lparr>mLowPriorityCounter := 0\<rparr>))
      \<lparr>mDmaLoopBreak := True\<rparr>"
    using f1 k1(1) unfolding t2_def
    by (simp add: lowPriorityTasks_def Let_def timeoutInput_def interruptInput_def idleInput_def
        exampleInput_def HANDLING_SIGINT_TIMEOUT_def milliseconds_def)
  have c2: "ctl t2 = ((map handleAt [0..<5], 5, 0, False, True, True), (\<lambda>i. False),
      examplePages 129, 5, 5)"
    using c1 by (simp add: e2 ctl_def emit_def)
  have four: "runLoop exampleOptions (timeoutInput # rest) ?t1' = runLoop exampleOptions rest t2"
    using waiting_pass [OF q(3) c1', of False True True rest] c2 by (simp only: t2_def)
  from c2 have "loopHead exampleOptions t2 = Some LoopBreak"
    by (simp add: loopHead_def ctl_def exampleOptions_simps)
  then have "runLoop exampleOptions rest t2 = Stopped LoopBreak t2"
    by (simp add: runLoop_at_stop leaveLoop_def)
  then have "runLoop exampleOptions
        (replicate LOW_PRIORITY_INTERVAL idleInput @ interruptInput # ?tail) ?s
      = Stopped LoopBreak t2"
    by (simp only: one two three four)
  then have "runDma exampleOptions 0
          (replicate LOW_PRIORITY_INTERVAL idleInput @ [interruptInput]
           @ replicate LOW_PRIORITY_INTERVAL interruptInput @ [timeoutInput] @ rest)
          exampleFinal exampleInit
        = Stopped LoopBreak (finishUp exampleOptions exampleFinal t2)"
    by (simp only: exampleFilled(1) [OF lim] append_Cons append_Nil outcome.case)
  moreover have "last (trace t2) = EvConsole InterruptedNotFinished"
    by (simp add: e2 emit_def)
  ultimately show ?thesis
    using c2 by blast
qed

text \<open>
  The page-limit exit of a run limited to five pages whose pages all arrive is not
  reached in three cases. With the pattern kind \<open>Random\<close> and pattern checking on, the
  run raises when it reads out the first page. With the temperature monitor reporting
  "maximum exceeded" at the first low priority check, before any page has arrived, the
  loop breaks with no page read out and five handles queued. With an interrupt pending at
  that check and still no page delivered at the next one, 20 ms later, the loop breaks
  through the timeout in the same state, the interrupt handling started. In the last two
  runs the five pages are delivered in the passes that would have followed.
\<close>

theorem page_limit_five_not_drained:
  "runDma randomOptions 0 (map exampleEnv [0..<5]) exampleFinal exampleInit
     = Raised (UnrecognizedGeneratorPattern Random) \<and>
   stoppedWith (runDma exampleOptions 0
       (replicate LOW_PRIORITY_INTERVAL idleInput @ [overheatInput] @ map exampleEnv [0..<5])
       exampleFinal exampleInit)
     = Some (LoopBreak, 0, map handleAt [0..<5], False) \<and>
   stoppedWith (runDma exampleOptions 0
       (replicate LOW_PRIORITY_INTERVAL idleInput @ [interruptInput]
        @ replicate LOW_PRIORITY_INTERVAL interruptInput @ [timeoutInput]
        @ map exampleEnv [0..<5])
       exampleFinal exampleInit)
     = Some (LoopBreak, 0, map handleAt [0..<5], True)"
proof -
  note c = exampleFilled(2) [OF exampleOptions_simps(1)]
  have "map exampleEnv [0..<5] = exampleEnv 0 # map exampleEnv [Suc 0..<5]"
    by (simp add: upt_conv_Cons)
  moreover have "0 \<in> arrivals (exampleEnv 0)"
    by (simp add: exampleEnv_arrivals)
  ultimately have "runDma randomOptions 0 (map exampleEnv [0..<5]) exampleFinal exampleInit
     = Raised (UnrecognizedGeneratorPattern Random)"
    by (simp only: exampleFilled(1) [OF randomOptions_simps(1)] random_pass_raises outcome.case)
  moreover have "stoppedWith (runDma exampleOptions 0
       (replicate LOW_PRIORITY_INTERVAL idleInput @ [overheatInput] @ map exampleEnv [0..<5])
       exampleFinal exampleInit)
     = Some (LoopBreak, 0, map handleAt [0..<5], False)"
    using c by (simp only: overheat_break) (simp add: stoppedWith_def finishUp_effect ctl_def emit_def)
  moreover from interrupt_break [of "map exampleEnv [0..<5]"]
  have "stoppedWith (runDma exampleOptions 0
       (replicate LOW_PRIORITY_INTERVAL idleInput @ [interruptInput]
        @ replicate LOW_PRIORITY_INTERVAL interruptInput @ [timeoutInput]
        @ map exampleEnv [0..<5])
       exampleFinal exampleInit)
     = Some (LoopBreak, 0, map handleAt [0..<5], True)"
    by (auto simp: stoppedWith_def finishUp_effect ctl_def)
  ultimately show ?thesis by (intro conjI)
qed

text \<open>
  The thermal abort of the example run does not reach the summary when the pattern kind
  is \<open>Random\<close> and pattern checking is on: the first pass reads out a page and the
  validator raises.
\<close>

theorem thermal_abort_raises_on_unknown_pattern:
  "runDma randomOptions 0 [] exampleFinal exampleInit = Running (exampleFilled randomOptions) \<and>
   isMaxExceeded hotInput \<and>
   LOW_PRIORITY_INTERVAL
     < mLowPriorityCounter (exampleFilled randomOptions) + length (replicate 10001 hotInput) \<and>
   runDma randomOptions 0 ([] @ replicate 10001 hotInput) exampleFinal exampleInit
     = Raised (UnrecognizedGeneratorPattern Random)"
proof -
  note lim = randomOptions_simps(1)
  have "runDma randomOptions 0 [] exampleFinal exampleInit = Running (exampleFilled randomOptions)"
    by (simp add: exampleFilled(1) [OF lim] exampleFilled(6) [OF lim])
  moreover have "isMaxExceeded hotInput"
    by (simp add: hotInput_def)
  moreover have "LOW_PRIORITY_INTERVAL
     < mLowPriorityCounter (exampleFilled randomOptions) + length (replicate 10001 hotInput)"
    by (simp add: LOW_PRIORITY_INTERVAL_def)
  moreover have "(10001::nat) = Suc 10000" by simp
  then have "replicate 10001 hotInput = hotInput # replicate 10000 hotInput"
    by (simp only: replicate_Suc)
  moreover have "0 \<in> arrivals hotInput"
    by (simp add: arrivals_def hotInput_def exampleInput_def exampleTransfer_def)
  ultimately show ?thesis
    by (simp only: exampleFilled(1) [OF lim] random_pass_raises append_Nil outcome.case simp_thms)
qed

end
